theory Spec2Isabelle
  imports Complex_Main "HOL-Library.Multiset"
begin

section \<open>Data model of \<open>src/index.ts\<close>\<close>

text \<open>
  Tasks, workers and promises are objects in the source; the model names each by an
  identifier. Action payloads and results are opaque values.
\<close>

type_synonym task = nat
type_synonym action = nat
type_synonym result = nat
type_synonym worker = string
type_synonym promise = nat

text \<open>
  The configured ceiling is a JavaScript \<open>number\<close> that the constructor stores as it gets
  it: a real number (the finite values), an infinity, or \<open>NaN\<close>. The code only ever
  compares a length with it, in \<open>length >= ceiling\<close> (lines 114 and 137); a comparison
  with \<open>NaN\<close> is false.
\<close>

datatype number = Num real | PosInfinity | NegInfinity | NaN

fun num_ge :: "nat \<Rightarrow> number \<Rightarrow> bool" where
  "num_ge n (Num r) = (r \<le> real n)"
| "num_ge n PosInfinity = False"
| "num_ge n NegInfinity = True"
| "num_ge n NaN = False"

text \<open>
  \<open>type WrappedAction = {a: Action, callback: (r: R) => void}\<close>. The callback is always the
  \<open>resolve\<close> function of the promise that \<open>performAction\<close> returned, so it is modelled by
  that promise.
\<close>

datatype WrappedAction = WrappedAction (act: action) (callback: promise)

datatype ActionDistributorResult = succeeded | failed | no_more_actions

text \<open>One call of the task provider, with what the scheduler's state was when it was made.\<close>

datatype invocation =
  Invocation (answer: "task option") (queued_then: nat) (running_then: nat)
    (ceiling_then: number)

text \<open>
  Every \<open>await\<close> of the source is a point where an asynchronous call is suspended and other
  code may run. A suspended call is recorded by the place where it waits.

  \<open>enqueueTasksIfNeeded\<close> waits inside \<open>startNewTask\<close> for the provider's answer (line 125),
  or at line 118 for \<open>startNewTask\<close> to return.
\<close>

datatype enq_pc = AwaitProvider "task option" | AfterStartNewTask

text \<open>
  A worker's pull loop (\<open>NamedWorker.run\<close> calling \<open>distributeAction\<close> calling
  \<open>getNextAction\<close>) waits inside \<open>enqueueTasksIfNeeded\<close>, at line 90 for it to return, at
  line 98 for what \<open>waitForNotify\<close> returned (\<open>None\<close> is \<open>undefined\<close>), at line 69 for the
  runner, or at line 189 for \<open>distributeAction\<close>'s result; or the loop has ended.
\<close>

datatype worker_pc =
    W_Enqueue enq_pc
  | W_AfterEnqueue
  | W_Await "promise option"
  | W_Running WrappedAction
  | W_Returned ActionDistributorResult
  | W_Done

text \<open>\<open>startPendingTasks\<close> waits at line 138, or has returned.\<close>

datatype start_pc = S_Await "promise option" | S_Done

text \<open>
  The fields of \<open>class Operation\<close>, then the state of the promises and of the suspended
  calls, then logs of what has happened (they are written and never read by the code).
  \<open>taskProvider\<close> holds the provider made by \<open>taskProviderFromList\<close>, represented by the
  list it closes over; \<open>None\<close> is \<open>null\<close>.
\<close>

record operation =
  taskProvider :: "task list option"
  maxConcurrentTasks :: "number option"
  workers :: "worker list"
  pendingTasks :: "task list"
  runningTasks :: "task list"
  failedTasks :: "task list"
  queuedActions :: "WrappedAction list"
  runningActions :: "WrappedAction list"
  notifyPromise :: "promise option"
  notifyResolve :: "promise option"
  finished :: bool
  notified :: "promise set"
  nextPromise :: promise
  handles :: "promise \<rightharpoonup> result"
  nextHandle :: promise
  wprocs :: "worker_pc list"
  eprocs :: "enq_pc option list"
  sprocs :: "start_pc list"
  providerLog :: "invocation list"
  startedLog :: "task list"
  resolvedLog :: "task list"
  rejectedLog :: "task list"
  submitted :: "WrappedAction list"
  delivered :: "WrappedAction list"

text \<open>\<open>new Operation(taskProviderFromList(tasks), maxConcurrentTasks)\<close>\<close>

definition new_Operation :: "task list \<Rightarrow> number option \<Rightarrow> operation" where
  "new_Operation tasks m =
     \<lparr> taskProvider = Some tasks, maxConcurrentTasks = m, workers = [],
       pendingTasks = [], runningTasks = [], failedTasks = [],
       queuedActions = [], runningActions = [],
       notifyPromise = None, notifyResolve = None, finished = False,
       notified = {}, nextPromise = 0, handles = Map.empty, nextHandle = 0,
       wprocs = [], eprocs = [], sprocs = [],
       providerLog = [], startedLog = [], resolvedLog = [], rejectedLog = [],
       submitted = [], delivered = [] \<rparr>"

section \<open>The methods\<close>

text \<open>\<open>taskProviderFromList\<close>: \<open>const t = tasks.shift(); if (t) return t;\<close>\<close>

definition taskProviderFromList :: "task list \<Rightarrow> task option \<times> task list" where
  "taskProviderFromList tasks = (case tasks of [] \<Rightarrow> (None, []) | t # ts \<Rightarrow> (Some t, ts))"

definition getMaxConcurrentTasks :: "operation \<Rightarrow> number" where
  "getMaxConcurrentTasks s =
     (case maxConcurrentTasks s of Some m \<Rightarrow> m | None \<Rightarrow> Num (real (length (workers s) * 3)))"

definition notifyAll :: "operation \<Rightarrow> operation" where
  "notifyAll s =
     (case notifyResolve s of
        None \<Rightarrow> s
      | Some p \<Rightarrow> s\<lparr>notified := insert p (notified s), notifyResolve := None, notifyPromise := None\<rparr>)"

text \<open>
  \<open>waitForNotify\<close> returns the pending promise when there is one. Otherwise it installs a
  new promise and falls off the end of the function: the caller gets \<open>undefined\<close>.
\<close>

definition waitForNotify :: "operation \<Rightarrow> promise option \<times> operation" where
  "waitForNotify s =
     (case notifyPromise s of
        Some p \<Rightarrow> (Some p, s)
      | None \<Rightarrow> (None, s\<lparr>notifyPromise := Some (nextPromise s),
                         notifyResolve := Some (nextPromise s),
                         nextPromise := Suc (nextPromise s)\<rparr>))"

text \<open>\<open>await x\<close> can resume when \<open>x\<close> is not a promise, or is a resolved promise.\<close>

definition ready :: "promise option \<Rightarrow> operation \<Rightarrow> bool" where
  "ready h s = (case h of None \<Rightarrow> True | Some p \<Rightarrow> p \<in> notified s)"

text \<open>
  \<open>startPendingTasks\<close> from the head of its loop, up to the next \<open>await\<close> or to its end.
  The started task's body is run by the environment.
\<close>

definition startPendingTasks :: "operation \<Rightarrow> start_pc \<times> operation" where
  "startPendingTasks s =
     (if num_ge (length (runningTasks s)) (getMaxConcurrentTasks s) then
        (case waitForNotify s of (h, s') \<Rightarrow> (S_Await h, s'))
      else
        (S_Done,
         case pendingTasks s of
           [] \<Rightarrow> s
         | t # ts \<Rightarrow> s\<lparr>pendingTasks := ts, runningTasks := runningTasks s @ [t],
                        startedLog := startedLog s @ [t]\<rparr>))"

text \<open>Line 132: the call is not awaited; if it suspends it goes on by itself.\<close>

definition spawnStart :: "operation \<Rightarrow> operation" where
  "spawnStart s =
     (case startPendingTasks s of
        (S_Done, s') \<Rightarrow> s'
      | (S_Await h, s') \<Rightarrow> s'\<lparr>sprocs := sprocs s' @ [S_Await h]\<rparr>)"

text \<open>\<open>startNewTask\<close> up to line 125, where the provider is called.\<close>

definition startNewTask :: "operation \<Rightarrow> enq_pc \<times> operation" where
  "startNewTask s =
     (case taskProvider s of
        None \<Rightarrow> (AfterStartNewTask, s)
      | Some tasks \<Rightarrow>
          (case taskProviderFromList tasks of
             (r, tasks') \<Rightarrow>
               (AwaitProvider r,
                s\<lparr>taskProvider := Some tasks',
                  providerLog := providerLog s @
                    [Invocation r (length (queuedActions s)) (length (runningTasks s))
                       (getMaxConcurrentTasks s)]\<rparr>)))"

text \<open>\<open>startNewTask\<close> from line 126, with the provider's answer.\<close>

definition startNewTask_resume :: "task option \<Rightarrow> operation \<Rightarrow> operation" where
  "startNewTask_resume r s =
     (case r of
        None \<Rightarrow> s\<lparr>taskProvider := None\<rparr>
      | Some t \<Rightarrow> spawnStart (s\<lparr>pendingTasks := pendingTasks s @ [t]\<rparr>))"

text \<open>
  \<open>enqueueTasksIfNeeded\<close> from the head of its loop: \<open>None\<close> when it returns, the place where
  it waits otherwise.
\<close>

definition enqueueTasksIfNeeded :: "operation \<Rightarrow> enq_pc option \<times> operation" where
  "enqueueTasksIfNeeded s =
     (if queuedActions s = [] \<and> taskProvider s \<noteq> None then
        (if num_ge (length (runningTasks s)) (getMaxConcurrentTasks s) then (None, s)
         else (case startNewTask s of (pc, s') \<Rightarrow> (Some pc, s')))
      else (None, s))"

definition enqueue_resume :: "enq_pc \<Rightarrow> operation \<Rightarrow> enq_pc option \<times> operation" where
  "enqueue_resume pc s =
     (case pc of
        AwaitProvider r \<Rightarrow> (Some AfterStartNewTask, startNewTask_resume r s)
      | AfterStartNewTask \<Rightarrow> enqueueTasksIfNeeded s)"

text \<open>Lines 148 and 155: \<open>enqueueTasksIfNeeded\<close> called and not awaited.\<close>

definition spawnEnqueue :: "operation \<Rightarrow> operation" where
  "spawnEnqueue s =
     (case enqueueTasksIfNeeded s of
        (None, s') \<Rightarrow> s'
      | (Some pc, s') \<Rightarrow> s'\<lparr>eprocs := eprocs s' @ [Some pc]\<rparr>)"

text \<open>The \<open>then\<close> and the \<open>catch\<close> callbacks of a started task (lines 144 to 156).\<close>

definition task_then :: "task \<Rightarrow> operation \<Rightarrow> operation" where
  "task_then t s = spawnEnqueue (notifyAll (s\<lparr>runningTasks := remove1 t (runningTasks s)\<rparr>))"

definition task_catch :: "task \<Rightarrow> operation \<Rightarrow> operation" where
  "task_catch t s =
     spawnEnqueue (notifyAll (s\<lparr>failedTasks := failedTasks s @ [t],
                                runningTasks := remove1 t (runningTasks s)\<rparr>))"

text \<open>\<open>performAction\<close>: the new promise, and the state after the push and \<open>notifyAll\<close>.\<close>

definition performAction :: "action \<Rightarrow> operation \<Rightarrow> promise \<times> operation" where
  "performAction x s =
     (nextHandle s,
      notifyAll (s\<lparr>queuedActions := queuedActions s @ [WrappedAction x (nextHandle s)],
                   nextHandle := Suc (nextHandle s)\<rparr>))"

text \<open>
  \<open>getNextAction\<close> from line 91, which is also what lines 99 to 103 and the loop test do
  after a wait: take the head of the queue, or wait while tasks run, or finish.
\<close>

datatype next_action = Got WrappedAction | Wait "promise option" | no_actions

definition getNextAction_resume :: "operation \<Rightarrow> next_action \<times> operation" where
  "getNextAction_resume s =
     (case queuedActions s of
        x # q \<Rightarrow> (Got x, s\<lparr>queuedActions := q, runningActions := runningActions s @ [x]\<rparr>)
      | [] \<Rightarrow>
          (if runningTasks s \<noteq> [] then
             (case waitForNotify s of (h, s') \<Rightarrow> (Wait h, s'))
           else (no_actions, s\<lparr>finished := True\<rparr>)))"

text \<open>A call of \<open>distributeAction\<close> up to its first suspension, inside \<open>getNextAction\<close>.\<close>

definition distributeAction :: "operation \<Rightarrow> worker_pc \<times> operation" where
  "distributeAction s =
     (case enqueueTasksIfNeeded s of
        (Some pc, s') \<Rightarrow> (W_Enqueue pc, s')
      | (None, s') \<Rightarrow> (W_AfterEnqueue, s'))"

section \<open>Runs\<close>

text \<open>
  Between two suspension points the code runs without interruption. A run is a sequence of
  events: a call from outside, the resumption of one suspended call, or the environment
  settling a promise it owns (a runner's, a task body's) or a running task submitting an
  action. Any enabled event may come next.
\<close>

datatype event =
    RegisterWorker worker
  | WorkerResume nat
  | RunnerResolve nat result
  | RunnerReject nat
  | TaskPerform task action
  | TaskResolve task
  | TaskReject task
  | EnqueueResume nat
  | StartResume nat

definition setW :: "nat \<Rightarrow> worker_pc \<Rightarrow> operation \<Rightarrow> operation" where
  "setW i pc s = s\<lparr>wprocs := (wprocs s)[i := pc]\<rparr>"

text \<open>Worker \<open>i\<close> goes on in \<open>getNextAction\<close> and hands the outcome to \<open>distributeAction\<close>.\<close>

definition worker_next :: "nat \<Rightarrow> operation \<Rightarrow> operation" where
  "worker_next i s =
     (case getNextAction_resume s of
        (Got x, s') \<Rightarrow> setW i (W_Running x) (s'\<lparr>delivered := delivered s' @ [x]\<rparr>)
      | (Wait h, s') \<Rightarrow> setW i (W_Await h) s'
      | (no_actions, s') \<Rightarrow> setW i (W_Returned no_more_actions) s')"

fun worker_resume :: "worker_pc \<Rightarrow> nat \<Rightarrow> operation \<Rightarrow> operation option" where
  "worker_resume (W_Enqueue pc) i s =
     (case enqueue_resume pc s of
        (Some pc', s') \<Rightarrow> Some (setW i (W_Enqueue pc') s')
      | (None, s') \<Rightarrow> Some (setW i W_AfterEnqueue s'))"
| "worker_resume W_AfterEnqueue i s = Some (worker_next i s)"
| "worker_resume (W_Await h) i s = (if ready h s then Some (worker_next i s) else None)"
| "worker_resume (W_Running x) i s = None"
| "worker_resume (W_Returned r) i s =
     (if r = no_more_actions then Some (setW i W_Done s)
      else (case distributeAction s of (pc, s') \<Rightarrow> Some (setW i pc s')))"
| "worker_resume W_Done i s = None"

text \<open>\<open>action.callback(result)\<close>: resolving a promise that is already resolved does nothing.\<close>

definition resolveHandle :: "promise \<Rightarrow> result \<Rightarrow> operation \<Rightarrow> operation" where
  "resolveHandle h r s =
     (case handles s h of None \<Rightarrow> s\<lparr>handles := (handles s)(h \<mapsto> r)\<rparr> | Some _ \<Rightarrow> s)"

fun step :: "event \<Rightarrow> operation \<Rightarrow> operation option" where
  "step (RegisterWorker w) s =
     (case distributeAction (s\<lparr>workers := workers s @ [w]\<rparr>) of
        (pc, s') \<Rightarrow> Some (s'\<lparr>wprocs := wprocs s' @ [pc]\<rparr>))"
| "step (WorkerResume i) s =
     (if i < length (wprocs s) then worker_resume (wprocs s ! i) i s else None)"
| "step (RunnerResolve i r) s =
     (if i < length (wprocs s) then
        (case wprocs s ! i of
           W_Running x \<Rightarrow> Some (setW i (W_Returned succeeded) (resolveHandle (callback x) r s))
         | _ \<Rightarrow> None)
      else None)"
| "step (RunnerReject i) s =
     (if i < length (wprocs s) then
        (case wprocs s ! i of
           W_Running x \<Rightarrow> Some (setW i (W_Returned failed) s)
         | _ \<Rightarrow> None)
      else None)"
| "step (TaskPerform t x) s =
     (if t \<in> set (runningTasks s) then
        (case performAction x s of
           (h, s') \<Rightarrow> Some (s'\<lparr>submitted := submitted s' @ [WrappedAction x h]\<rparr>))
      else None)"
| "step (TaskResolve t) s =
     (if t \<in> set (runningTasks s) then
        Some (task_then t (s\<lparr>resolvedLog := resolvedLog s @ [t]\<rparr>))
      else None)"
| "step (TaskReject t) s =
     (if t \<in> set (runningTasks s) then
        Some (task_catch t (s\<lparr>rejectedLog := rejectedLog s @ [t]\<rparr>))
      else None)"
| "step (EnqueueResume j) s =
     (if j < length (eprocs s) then
        (case eprocs s ! j of
           None \<Rightarrow> None
         | Some pc \<Rightarrow>
             (case enqueue_resume pc s of
                (pc', s') \<Rightarrow> Some (s'\<lparr>eprocs := (eprocs s')[j := pc']\<rparr>)))
      else None)"
| "step (StartResume k) s =
     (if k < length (sprocs s) then
        (case sprocs s ! k of
           S_Done \<Rightarrow> None
         | S_Await h \<Rightarrow>
             (if ready h s then
                (case startPendingTasks s of
                   (pc, s') \<Rightarrow> Some (s'\<lparr>sprocs := (sprocs s')[k := pc]\<rparr>))
              else None))
      else None)"

fun run :: "event list \<Rightarrow> operation \<Rightarrow> operation option" where
  "run [] s = Some s"
| "run (e # es) s = (case step e s of None \<Rightarrow> None | Some s' \<Rightarrow> run es s')"

section \<open>Properties of states and of runs\<close>

text \<open>The workers that the events of a run register, in order.\<close>

fun registered :: "event list \<Rightarrow> worker list" where
  "registered [] = []"
| "registered (RegisterWorker w # es) = w # registered es"
| "registered (_ # es) = registered es"

text \<open>
  The submitted actions are the delivered ones followed by the queued ones, and the
  registry holds the delivered ones.
\<close>

definition fifo :: "operation \<Rightarrow> bool" where
  "fifo s = (submitted s = delivered s @ queuedActions s \<and> runningActions s = delivered s)"

text \<open>\<open>length <= ceiling\<close> and \<open>length < ceiling\<close>, as JavaScript compares them.\<close>

fun num_le :: "nat \<Rightarrow> number \<Rightarrow> bool" where
  "num_le n (Num r) = (real n \<le> r)"
| "num_le n PosInfinity = True"
| "num_le n NegInfinity = False"
| "num_le n NaN = False"

fun num_lt :: "nat \<Rightarrow> number \<Rightarrow> bool" where
  "num_lt n (Num r) = (real n < r)"
| "num_lt n PosInfinity = True"
| "num_lt n NegInfinity = False"
| "num_lt n NaN = False"

text \<open>The number is a count: a non-negative integer.\<close>

fun is_count :: "number \<Rightarrow> bool" where
  "is_count (Num r) = (0 \<le> r \<and> r = real_of_int \<lfloor>r\<rfloor>)"
| "is_count _ = False"

text \<open>No ceiling is configured, so that it is derived from the workers, or a count is.\<close>

definition count_ceiling :: "number option \<Rightarrow> bool" where
  "count_ceiling m = (case m of None \<Rightarrow> True | Some c \<Rightarrow> is_count c)"

text \<open>With such a ceiling, no more tasks run than the ceiling allows.\<close>

definition bounded :: "operation \<Rightarrow> bool" where
  "bounded s =
     (count_ceiling (maxConcurrentTasks s) \<longrightarrow>
      num_le (length (runningTasks s)) (getMaxConcurrentTasks s))"

text \<open>The tests of \<open>enqueueTasksIfNeeded\<close> under which it calls the provider.\<close>

definition invokes :: "operation \<Rightarrow> bool" where
  "invokes s = (queuedActions s = [] \<and> taskProvider s \<noteq> None \<and>
                \<not> num_ge (length (runningTasks s)) (getMaxConcurrentTasks s))"

text \<open>The tasks that the provider has not handed out yet.\<close>

definition remaining :: "operation \<Rightarrow> task list" where
  "remaining s = (case taskProvider s of None \<Rightarrow> [] | Some tasks \<Rightarrow> tasks)"

text \<open>
  An invocation of the provider was made with an empty queue and with the test
  \<open>running >= ceiling\<close> false; the ceiling read then was \<open>NaN\<close> only if \<open>NaN\<close> is configured.
\<close>

definition invoked_when_needed :: "number option \<Rightarrow> invocation \<Rightarrow> bool" where
  "invoked_when_needed m v =
     (queued_then v = 0 \<and> \<not> num_ge (running_then v) (ceiling_then v) \<and>
      (ceiling_then v = NaN \<longrightarrow> m = Some NaN))"

definition log_ok :: "number option \<Rightarrow> operation \<Rightarrow> bool" where
  "log_ok m s = (maxConcurrentTasks s = m \<and> list_all (invoked_when_needed m) (providerLog s))"

text \<open>The event resumes line 125 with the exhaustion signal as the provider's answer.\<close>

fun delivers_exhaustion :: "event \<Rightarrow> operation \<Rightarrow> bool" where
  "delivers_exhaustion (WorkerResume i) s =
     (i < length (wprocs s) \<and> wprocs s ! i = W_Enqueue (AwaitProvider None))"
| "delivers_exhaustion (EnqueueResume j) s =
     (j < length (eprocs s) \<and> eprocs s ! j = Some (AwaitProvider None))"
| "delivers_exhaustion _ s = False"

text \<open>
  Where the tasks of the supply are: not yet handed out, handed out by the provider to a
  call that is still awaited, pending, running, or settled.
\<close>

fun enq_task :: "enq_pc \<Rightarrow> task multiset" where
  "enq_task (AwaitProvider (Some t)) = {#t#}"
| "enq_task (AwaitProvider None) = {#}"
| "enq_task AfterStartNewTask = {#}"

fun worker_task :: "worker_pc \<Rightarrow> task multiset" where
  "worker_task (W_Enqueue pc) = enq_task pc"
| "worker_task _ = {#}"

fun eproc_task :: "enq_pc option \<Rightarrow> task multiset" where
  "eproc_task (Some pc) = enq_task pc"
| "eproc_task None = {#}"

definition inflight :: "operation \<Rightarrow> task multiset" where
  "inflight s = sum_list (map worker_task (wprocs s)) + sum_list (map eproc_task (eprocs s))"

definition all_tasks :: "operation \<Rightarrow> task multiset" where
  "all_tasks s = mset (remaining s) + inflight s + mset (pendingTasks s) +
                 mset (runningTasks s) + mset (resolvedLog s) + mset (rejectedLog s)"

text \<open>While a call that was answered with the exhaustion signal is awaited, the supply is empty.\<close>

definition exhausted_ok :: "operation \<Rightarrow> bool" where
  "exhausted_ok s =
     (W_Enqueue (AwaitProvider None) \<in> set (wprocs s) \<or>
      Some (AwaitProvider None) \<in> set (eprocs s) \<longrightarrow> remaining s = [])"

text \<open>
  The failed list is the list of the tasks whose body rejected, and the started tasks are
  the running ones and the settled ones.
\<close>

definition accounted :: "operation \<Rightarrow> bool" where
  "accounted s =
     (failedTasks s = rejectedLog s \<and>
      mset (runningTasks s) + mset (resolvedLog s) + mset (rejectedLog s) = mset (startedLog s))"

text \<open>The three properties of the tasks that hold together along a run.\<close>

definition tasks_inv :: "task multiset \<Rightarrow> operation \<Rightarrow> bool" where
  "tasks_inv M s = (exhausted_ok s \<and> all_tasks s = M \<and> accounted s)"

text \<open>
  The promises returned by \<open>performAction\<close> whose callback is still held: by a queued
  action, or by an action a worker is running.
\<close>

fun held :: "worker_pc \<Rightarrow> promise multiset" where
  "held (W_Running x) = {#callback x#}"
| "held _ = {#}"

definition pendingHandles :: "operation \<Rightarrow> promise multiset" where
  "pendingHandles s =
     mset (map callback (queuedActions s)) + sum_list (map held (wprocs s))"

text \<open>Each callback is held once, its promise has been created and is not resolved.\<close>

definition handles_ok :: "operation \<Rightarrow> bool" where
  "handles_ok s =
     ((\<forall>h. count (pendingHandles s) h \<le> 1) \<and>
      (\<forall>h. h \<in># pendingHandles s \<longrightarrow> h < nextHandle s \<and> handles s h = None) \<and>
      (\<forall>h. handles s h \<noteq> None \<longrightarrow> h < nextHandle s))"

text \<open>A promise that has been created, is not resolved, and whose callback nobody holds.\<close>

definition abandoned :: "promise \<Rightarrow> operation \<Rightarrow> bool" where
  "abandoned h s = (h < nextHandle s \<and> h \<notin># pendingHandles s \<and> handles s h = None)"

section \<open>What each method leaves unchanged\<close>

lemma notifyAll_frame [simp]:
  "taskProvider (notifyAll s) = taskProvider s"
  "maxConcurrentTasks (notifyAll s) = maxConcurrentTasks s"
  "workers (notifyAll s) = workers s"
  "pendingTasks (notifyAll s) = pendingTasks s"
  "runningTasks (notifyAll s) = runningTasks s"
  "failedTasks (notifyAll s) = failedTasks s"
  "queuedActions (notifyAll s) = queuedActions s"
  "runningActions (notifyAll s) = runningActions s"
  "finished (notifyAll s) = finished s"
  "nextPromise (notifyAll s) = nextPromise s"
  "handles (notifyAll s) = handles s"
  "nextHandle (notifyAll s) = nextHandle s"
  "wprocs (notifyAll s) = wprocs s"
  "eprocs (notifyAll s) = eprocs s"
  "sprocs (notifyAll s) = sprocs s"
  "providerLog (notifyAll s) = providerLog s"
  "startedLog (notifyAll s) = startedLog s"
  "resolvedLog (notifyAll s) = resolvedLog s"
  "rejectedLog (notifyAll s) = rejectedLog s"
  "submitted (notifyAll s) = submitted s"
  "delivered (notifyAll s) = delivered s"
  by (simp_all add: notifyAll_def split: option.split)

lemma notifyAll_ceiling [simp]:
  "getMaxConcurrentTasks (notifyAll s) = getMaxConcurrentTasks s"
  by (simp add: getMaxConcurrentTasks_def split: option.split)

lemma waitForNotify_frame [simp]:
  "taskProvider (snd (waitForNotify s)) = taskProvider s"
  "maxConcurrentTasks (snd (waitForNotify s)) = maxConcurrentTasks s"
  "workers (snd (waitForNotify s)) = workers s"
  "pendingTasks (snd (waitForNotify s)) = pendingTasks s"
  "runningTasks (snd (waitForNotify s)) = runningTasks s"
  "failedTasks (snd (waitForNotify s)) = failedTasks s"
  "queuedActions (snd (waitForNotify s)) = queuedActions s"
  "runningActions (snd (waitForNotify s)) = runningActions s"
  "finished (snd (waitForNotify s)) = finished s"
  "notified (snd (waitForNotify s)) = notified s"
  "handles (snd (waitForNotify s)) = handles s"
  "nextHandle (snd (waitForNotify s)) = nextHandle s"
  "wprocs (snd (waitForNotify s)) = wprocs s"
  "eprocs (snd (waitForNotify s)) = eprocs s"
  "sprocs (snd (waitForNotify s)) = sprocs s"
  "providerLog (snd (waitForNotify s)) = providerLog s"
  "startedLog (snd (waitForNotify s)) = startedLog s"
  "resolvedLog (snd (waitForNotify s)) = resolvedLog s"
  "rejectedLog (snd (waitForNotify s)) = rejectedLog s"
  "submitted (snd (waitForNotify s)) = submitted s"
  "delivered (snd (waitForNotify s)) = delivered s"
  by (simp_all add: waitForNotify_def split: option.split)

lemma waitForNotify_ceiling [simp]:
  "getMaxConcurrentTasks (snd (waitForNotify s)) = getMaxConcurrentTasks s"
  by (simp add: getMaxConcurrentTasks_def split: option.split)

lemma startPendingTasks_frame [simp]:
  "taskProvider (snd (startPendingTasks s)) = taskProvider s"
  "maxConcurrentTasks (snd (startPendingTasks s)) = maxConcurrentTasks s"
  "workers (snd (startPendingTasks s)) = workers s"
  "failedTasks (snd (startPendingTasks s)) = failedTasks s"
  "queuedActions (snd (startPendingTasks s)) = queuedActions s"
  "runningActions (snd (startPendingTasks s)) = runningActions s"
  "finished (snd (startPendingTasks s)) = finished s"
  "notified (snd (startPendingTasks s)) = notified s"
  "handles (snd (startPendingTasks s)) = handles s"
  "nextHandle (snd (startPendingTasks s)) = nextHandle s"
  "wprocs (snd (startPendingTasks s)) = wprocs s"
  "eprocs (snd (startPendingTasks s)) = eprocs s"
  "sprocs (snd (startPendingTasks s)) = sprocs s"
  "providerLog (snd (startPendingTasks s)) = providerLog s"
  "resolvedLog (snd (startPendingTasks s)) = resolvedLog s"
  "rejectedLog (snd (startPendingTasks s)) = rejectedLog s"
  "submitted (snd (startPendingTasks s)) = submitted s"
  "delivered (snd (startPendingTasks s)) = delivered s"
  by (simp_all add: startPendingTasks_def split_beta split: list.split)

lemma startPendingTasks_ceiling [simp]:
  "getMaxConcurrentTasks (snd (startPendingTasks s)) = getMaxConcurrentTasks s"
  by (simp add: getMaxConcurrentTasks_def split: option.split)

lemma spawnStart_frame [simp]:
  "taskProvider (spawnStart s) = taskProvider s"
  "maxConcurrentTasks (spawnStart s) = maxConcurrentTasks s"
  "workers (spawnStart s) = workers s"
  "failedTasks (spawnStart s) = failedTasks s"
  "queuedActions (spawnStart s) = queuedActions s"
  "runningActions (spawnStart s) = runningActions s"
  "finished (spawnStart s) = finished s"
  "notified (spawnStart s) = notified s"
  "handles (spawnStart s) = handles s"
  "nextHandle (spawnStart s) = nextHandle s"
  "wprocs (spawnStart s) = wprocs s"
  "eprocs (spawnStart s) = eprocs s"
  "providerLog (spawnStart s) = providerLog s"
  "resolvedLog (spawnStart s) = resolvedLog s"
  "rejectedLog (spawnStart s) = rejectedLog s"
  "submitted (spawnStart s) = submitted s"
  "delivered (spawnStart s) = delivered s"
  by (simp_all add: spawnStart_def split_beta split: start_pc.split)

lemma spawnStart_ceiling [simp]:
  "getMaxConcurrentTasks (spawnStart s) = getMaxConcurrentTasks s"
  by (simp add: getMaxConcurrentTasks_def split: option.split)

lemma startNewTask_frame [simp]:
  "maxConcurrentTasks (snd (startNewTask s)) = maxConcurrentTasks s"
  "workers (snd (startNewTask s)) = workers s"
  "pendingTasks (snd (startNewTask s)) = pendingTasks s"
  "runningTasks (snd (startNewTask s)) = runningTasks s"
  "failedTasks (snd (startNewTask s)) = failedTasks s"
  "queuedActions (snd (startNewTask s)) = queuedActions s"
  "runningActions (snd (startNewTask s)) = runningActions s"
  "notifyPromise (snd (startNewTask s)) = notifyPromise s"
  "notifyResolve (snd (startNewTask s)) = notifyResolve s"
  "finished (snd (startNewTask s)) = finished s"
  "notified (snd (startNewTask s)) = notified s"
  "nextPromise (snd (startNewTask s)) = nextPromise s"
  "handles (snd (startNewTask s)) = handles s"
  "nextHandle (snd (startNewTask s)) = nextHandle s"
  "wprocs (snd (startNewTask s)) = wprocs s"
  "eprocs (snd (startNewTask s)) = eprocs s"
  "sprocs (snd (startNewTask s)) = sprocs s"
  "startedLog (snd (startNewTask s)) = startedLog s"
  "resolvedLog (snd (startNewTask s)) = resolvedLog s"
  "rejectedLog (snd (startNewTask s)) = rejectedLog s"
  "submitted (snd (startNewTask s)) = submitted s"
  "delivered (snd (startNewTask s)) = delivered s"
  by (simp_all add: startNewTask_def split_beta split: option.split)

lemma startNewTask_ceiling [simp]:
  "getMaxConcurrentTasks (snd (startNewTask s)) = getMaxConcurrentTasks s"
  by (simp add: getMaxConcurrentTasks_def split: option.split)

lemma startNewTask_resume_frame [simp]:
  "maxConcurrentTasks (startNewTask_resume r s) = maxConcurrentTasks s"
  "workers (startNewTask_resume r s) = workers s"
  "failedTasks (startNewTask_resume r s) = failedTasks s"
  "queuedActions (startNewTask_resume r s) = queuedActions s"
  "runningActions (startNewTask_resume r s) = runningActions s"
  "finished (startNewTask_resume r s) = finished s"
  "notified (startNewTask_resume r s) = notified s"
  "handles (startNewTask_resume r s) = handles s"
  "nextHandle (startNewTask_resume r s) = nextHandle s"
  "wprocs (startNewTask_resume r s) = wprocs s"
  "eprocs (startNewTask_resume r s) = eprocs s"
  "providerLog (startNewTask_resume r s) = providerLog s"
  "resolvedLog (startNewTask_resume r s) = resolvedLog s"
  "rejectedLog (startNewTask_resume r s) = rejectedLog s"
  "submitted (startNewTask_resume r s) = submitted s"
  "delivered (startNewTask_resume r s) = delivered s"
  by (simp_all add: startNewTask_resume_def split: option.split)

lemma startNewTask_resume_ceiling [simp]:
  "getMaxConcurrentTasks (startNewTask_resume r s) = getMaxConcurrentTasks s"
  by (simp add: getMaxConcurrentTasks_def split: option.split)

lemma enqueueTasksIfNeeded_frame [simp]:
  "maxConcurrentTasks (snd (enqueueTasksIfNeeded s)) = maxConcurrentTasks s"
  "workers (snd (enqueueTasksIfNeeded s)) = workers s"
  "pendingTasks (snd (enqueueTasksIfNeeded s)) = pendingTasks s"
  "runningTasks (snd (enqueueTasksIfNeeded s)) = runningTasks s"
  "failedTasks (snd (enqueueTasksIfNeeded s)) = failedTasks s"
  "queuedActions (snd (enqueueTasksIfNeeded s)) = queuedActions s"
  "runningActions (snd (enqueueTasksIfNeeded s)) = runningActions s"
  "notifyPromise (snd (enqueueTasksIfNeeded s)) = notifyPromise s"
  "notifyResolve (snd (enqueueTasksIfNeeded s)) = notifyResolve s"
  "finished (snd (enqueueTasksIfNeeded s)) = finished s"
  "notified (snd (enqueueTasksIfNeeded s)) = notified s"
  "nextPromise (snd (enqueueTasksIfNeeded s)) = nextPromise s"
  "handles (snd (enqueueTasksIfNeeded s)) = handles s"
  "nextHandle (snd (enqueueTasksIfNeeded s)) = nextHandle s"
  "wprocs (snd (enqueueTasksIfNeeded s)) = wprocs s"
  "eprocs (snd (enqueueTasksIfNeeded s)) = eprocs s"
  "sprocs (snd (enqueueTasksIfNeeded s)) = sprocs s"
  "startedLog (snd (enqueueTasksIfNeeded s)) = startedLog s"
  "resolvedLog (snd (enqueueTasksIfNeeded s)) = resolvedLog s"
  "rejectedLog (snd (enqueueTasksIfNeeded s)) = rejectedLog s"
  "submitted (snd (enqueueTasksIfNeeded s)) = submitted s"
  "delivered (snd (enqueueTasksIfNeeded s)) = delivered s"
  by (simp_all add: enqueueTasksIfNeeded_def split_beta)

lemma enqueueTasksIfNeeded_ceiling [simp]:
  "getMaxConcurrentTasks (snd (enqueueTasksIfNeeded s)) = getMaxConcurrentTasks s"
  by (simp add: getMaxConcurrentTasks_def split: option.split)

lemma enqueue_resume_frame [simp]:
  "maxConcurrentTasks (snd (enqueue_resume pc s)) = maxConcurrentTasks s"
  "workers (snd (enqueue_resume pc s)) = workers s"
  "failedTasks (snd (enqueue_resume pc s)) = failedTasks s"
  "queuedActions (snd (enqueue_resume pc s)) = queuedActions s"
  "runningActions (snd (enqueue_resume pc s)) = runningActions s"
  "finished (snd (enqueue_resume pc s)) = finished s"
  "notified (snd (enqueue_resume pc s)) = notified s"
  "handles (snd (enqueue_resume pc s)) = handles s"
  "nextHandle (snd (enqueue_resume pc s)) = nextHandle s"
  "wprocs (snd (enqueue_resume pc s)) = wprocs s"
  "eprocs (snd (enqueue_resume pc s)) = eprocs s"
  "resolvedLog (snd (enqueue_resume pc s)) = resolvedLog s"
  "rejectedLog (snd (enqueue_resume pc s)) = rejectedLog s"
  "submitted (snd (enqueue_resume pc s)) = submitted s"
  "delivered (snd (enqueue_resume pc s)) = delivered s"
  by (simp_all add: enqueue_resume_def split: enq_pc.split)

lemma enqueue_resume_ceiling [simp]:
  "getMaxConcurrentTasks (snd (enqueue_resume pc s)) = getMaxConcurrentTasks s"
  by (simp add: getMaxConcurrentTasks_def split: option.split)

lemma spawnEnqueue_frame [simp]:
  "maxConcurrentTasks (spawnEnqueue s) = maxConcurrentTasks s"
  "workers (spawnEnqueue s) = workers s"
  "pendingTasks (spawnEnqueue s) = pendingTasks s"
  "runningTasks (spawnEnqueue s) = runningTasks s"
  "failedTasks (spawnEnqueue s) = failedTasks s"
  "queuedActions (spawnEnqueue s) = queuedActions s"
  "runningActions (spawnEnqueue s) = runningActions s"
  "notifyPromise (spawnEnqueue s) = notifyPromise s"
  "notifyResolve (spawnEnqueue s) = notifyResolve s"
  "finished (spawnEnqueue s) = finished s"
  "notified (spawnEnqueue s) = notified s"
  "nextPromise (spawnEnqueue s) = nextPromise s"
  "handles (spawnEnqueue s) = handles s"
  "nextHandle (spawnEnqueue s) = nextHandle s"
  "wprocs (spawnEnqueue s) = wprocs s"
  "sprocs (spawnEnqueue s) = sprocs s"
  "startedLog (spawnEnqueue s) = startedLog s"
  "resolvedLog (spawnEnqueue s) = resolvedLog s"
  "rejectedLog (spawnEnqueue s) = rejectedLog s"
  "submitted (spawnEnqueue s) = submitted s"
  "delivered (spawnEnqueue s) = delivered s"
  by (simp_all add: spawnEnqueue_def split_beta split: option.split)

lemma spawnEnqueue_ceiling [simp]:
  "getMaxConcurrentTasks (spawnEnqueue s) = getMaxConcurrentTasks s"
  by (simp add: getMaxConcurrentTasks_def split: option.split)

lemma task_then_frame [simp]:
  "maxConcurrentTasks (task_then t s) = maxConcurrentTasks s"
  "workers (task_then t s) = workers s"
  "pendingTasks (task_then t s) = pendingTasks s"
  "failedTasks (task_then t s) = failedTasks s"
  "queuedActions (task_then t s) = queuedActions s"
  "runningActions (task_then t s) = runningActions s"
  "finished (task_then t s) = finished s"
  "nextPromise (task_then t s) = nextPromise s"
  "handles (task_then t s) = handles s"
  "nextHandle (task_then t s) = nextHandle s"
  "wprocs (task_then t s) = wprocs s"
  "sprocs (task_then t s) = sprocs s"
  "startedLog (task_then t s) = startedLog s"
  "resolvedLog (task_then t s) = resolvedLog s"
  "rejectedLog (task_then t s) = rejectedLog s"
  "submitted (task_then t s) = submitted s"
  "delivered (task_then t s) = delivered s"
  by (simp_all add: task_then_def)

lemma task_then_ceiling [simp]:
  "getMaxConcurrentTasks (task_then t s) = getMaxConcurrentTasks s"
  by (simp add: getMaxConcurrentTasks_def split: option.split)

lemma task_catch_frame [simp]:
  "maxConcurrentTasks (task_catch t s) = maxConcurrentTasks s"
  "workers (task_catch t s) = workers s"
  "pendingTasks (task_catch t s) = pendingTasks s"
  "queuedActions (task_catch t s) = queuedActions s"
  "runningActions (task_catch t s) = runningActions s"
  "finished (task_catch t s) = finished s"
  "nextPromise (task_catch t s) = nextPromise s"
  "handles (task_catch t s) = handles s"
  "nextHandle (task_catch t s) = nextHandle s"
  "wprocs (task_catch t s) = wprocs s"
  "sprocs (task_catch t s) = sprocs s"
  "startedLog (task_catch t s) = startedLog s"
  "resolvedLog (task_catch t s) = resolvedLog s"
  "rejectedLog (task_catch t s) = rejectedLog s"
  "submitted (task_catch t s) = submitted s"
  "delivered (task_catch t s) = delivered s"
  by (simp_all add: task_catch_def)

lemma task_catch_ceiling [simp]:
  "getMaxConcurrentTasks (task_catch t s) = getMaxConcurrentTasks s"
  by (simp add: getMaxConcurrentTasks_def split: option.split)

lemma performAction_frame [simp]:
  "taskProvider (snd (performAction x s)) = taskProvider s"
  "maxConcurrentTasks (snd (performAction x s)) = maxConcurrentTasks s"
  "workers (snd (performAction x s)) = workers s"
  "pendingTasks (snd (performAction x s)) = pendingTasks s"
  "runningTasks (snd (performAction x s)) = runningTasks s"
  "failedTasks (snd (performAction x s)) = failedTasks s"
  "runningActions (snd (performAction x s)) = runningActions s"
  "finished (snd (performAction x s)) = finished s"
  "nextPromise (snd (performAction x s)) = nextPromise s"
  "handles (snd (performAction x s)) = handles s"
  "wprocs (snd (performAction x s)) = wprocs s"
  "eprocs (snd (performAction x s)) = eprocs s"
  "sprocs (snd (performAction x s)) = sprocs s"
  "providerLog (snd (performAction x s)) = providerLog s"
  "startedLog (snd (performAction x s)) = startedLog s"
  "resolvedLog (snd (performAction x s)) = resolvedLog s"
  "rejectedLog (snd (performAction x s)) = rejectedLog s"
  "submitted (snd (performAction x s)) = submitted s"
  "delivered (snd (performAction x s)) = delivered s"
  by (simp_all add: performAction_def)

lemma performAction_ceiling [simp]:
  "getMaxConcurrentTasks (snd (performAction x s)) = getMaxConcurrentTasks s"
  by (simp add: getMaxConcurrentTasks_def split: option.split)

lemma getNextAction_resume_frame [simp]:
  "taskProvider (snd (getNextAction_resume s)) = taskProvider s"
  "maxConcurrentTasks (snd (getNextAction_resume s)) = maxConcurrentTasks s"
  "workers (snd (getNextAction_resume s)) = workers s"
  "pendingTasks (snd (getNextAction_resume s)) = pendingTasks s"
  "runningTasks (snd (getNextAction_resume s)) = runningTasks s"
  "failedTasks (snd (getNextAction_resume s)) = failedTasks s"
  "notified (snd (getNextAction_resume s)) = notified s"
  "handles (snd (getNextAction_resume s)) = handles s"
  "nextHandle (snd (getNextAction_resume s)) = nextHandle s"
  "wprocs (snd (getNextAction_resume s)) = wprocs s"
  "eprocs (snd (getNextAction_resume s)) = eprocs s"
  "sprocs (snd (getNextAction_resume s)) = sprocs s"
  "providerLog (snd (getNextAction_resume s)) = providerLog s"
  "startedLog (snd (getNextAction_resume s)) = startedLog s"
  "resolvedLog (snd (getNextAction_resume s)) = resolvedLog s"
  "rejectedLog (snd (getNextAction_resume s)) = rejectedLog s"
  "submitted (snd (getNextAction_resume s)) = submitted s"
  "delivered (snd (getNextAction_resume s)) = delivered s"
  by (simp_all add: getNextAction_resume_def split_beta split: list.split)

lemma getNextAction_resume_ceiling [simp]:
  "getMaxConcurrentTasks (snd (getNextAction_resume s)) = getMaxConcurrentTasks s"
  by (simp add: getMaxConcurrentTasks_def split: option.split)

lemma distributeAction_frame [simp]:
  "maxConcurrentTasks (snd (distributeAction s)) = maxConcurrentTasks s"
  "workers (snd (distributeAction s)) = workers s"
  "pendingTasks (snd (distributeAction s)) = pendingTasks s"
  "runningTasks (snd (distributeAction s)) = runningTasks s"
  "failedTasks (snd (distributeAction s)) = failedTasks s"
  "queuedActions (snd (distributeAction s)) = queuedActions s"
  "runningActions (snd (distributeAction s)) = runningActions s"
  "notifyPromise (snd (distributeAction s)) = notifyPromise s"
  "notifyResolve (snd (distributeAction s)) = notifyResolve s"
  "finished (snd (distributeAction s)) = finished s"
  "notified (snd (distributeAction s)) = notified s"
  "nextPromise (snd (distributeAction s)) = nextPromise s"
  "handles (snd (distributeAction s)) = handles s"
  "nextHandle (snd (distributeAction s)) = nextHandle s"
  "wprocs (snd (distributeAction s)) = wprocs s"
  "eprocs (snd (distributeAction s)) = eprocs s"
  "sprocs (snd (distributeAction s)) = sprocs s"
  "startedLog (snd (distributeAction s)) = startedLog s"
  "resolvedLog (snd (distributeAction s)) = resolvedLog s"
  "rejectedLog (snd (distributeAction s)) = rejectedLog s"
  "submitted (snd (distributeAction s)) = submitted s"
  "delivered (snd (distributeAction s)) = delivered s"
  by (simp_all add: distributeAction_def split_beta split: option.split)

lemma distributeAction_ceiling [simp]:
  "getMaxConcurrentTasks (snd (distributeAction s)) = getMaxConcurrentTasks s"
  by (simp add: getMaxConcurrentTasks_def split: option.split)

lemma setW_frame [simp]:
  "taskProvider (setW i pc s) = taskProvider s"
  "maxConcurrentTasks (setW i pc s) = maxConcurrentTasks s"
  "workers (setW i pc s) = workers s"
  "pendingTasks (setW i pc s) = pendingTasks s"
  "runningTasks (setW i pc s) = runningTasks s"
  "failedTasks (setW i pc s) = failedTasks s"
  "queuedActions (setW i pc s) = queuedActions s"
  "runningActions (setW i pc s) = runningActions s"
  "notifyPromise (setW i pc s) = notifyPromise s"
  "notifyResolve (setW i pc s) = notifyResolve s"
  "finished (setW i pc s) = finished s"
  "notified (setW i pc s) = notified s"
  "nextPromise (setW i pc s) = nextPromise s"
  "handles (setW i pc s) = handles s"
  "nextHandle (setW i pc s) = nextHandle s"
  "eprocs (setW i pc s) = eprocs s"
  "sprocs (setW i pc s) = sprocs s"
  "providerLog (setW i pc s) = providerLog s"
  "startedLog (setW i pc s) = startedLog s"
  "resolvedLog (setW i pc s) = resolvedLog s"
  "rejectedLog (setW i pc s) = rejectedLog s"
  "submitted (setW i pc s) = submitted s"
  "delivered (setW i pc s) = delivered s"
  by (simp_all add: setW_def)

lemma setW_ceiling [simp]:
  "getMaxConcurrentTasks (setW i pc s) = getMaxConcurrentTasks s"
  by (simp add: getMaxConcurrentTasks_def split: option.split)

lemma worker_next_frame [simp]:
  "taskProvider (worker_next i s) = taskProvider s"
  "maxConcurrentTasks (worker_next i s) = maxConcurrentTasks s"
  "workers (worker_next i s) = workers s"
  "pendingTasks (worker_next i s) = pendingTasks s"
  "runningTasks (worker_next i s) = runningTasks s"
  "failedTasks (worker_next i s) = failedTasks s"
  "notified (worker_next i s) = notified s"
  "handles (worker_next i s) = handles s"
  "nextHandle (worker_next i s) = nextHandle s"
  "eprocs (worker_next i s) = eprocs s"
  "sprocs (worker_next i s) = sprocs s"
  "providerLog (worker_next i s) = providerLog s"
  "startedLog (worker_next i s) = startedLog s"
  "resolvedLog (worker_next i s) = resolvedLog s"
  "rejectedLog (worker_next i s) = rejectedLog s"
  "submitted (worker_next i s) = submitted s"
  by (simp_all add: worker_next_def split_beta split: next_action.split)

lemma worker_next_ceiling [simp]:
  "getMaxConcurrentTasks (worker_next i s) = getMaxConcurrentTasks s"
  by (simp add: getMaxConcurrentTasks_def split: option.split)

lemma resolveHandle_frame [simp]:
  "taskProvider (resolveHandle h r s) = taskProvider s"
  "maxConcurrentTasks (resolveHandle h r s) = maxConcurrentTasks s"
  "workers (resolveHandle h r s) = workers s"
  "pendingTasks (resolveHandle h r s) = pendingTasks s"
  "runningTasks (resolveHandle h r s) = runningTasks s"
  "failedTasks (resolveHandle h r s) = failedTasks s"
  "queuedActions (resolveHandle h r s) = queuedActions s"
  "runningActions (resolveHandle h r s) = runningActions s"
  "notifyPromise (resolveHandle h r s) = notifyPromise s"
  "notifyResolve (resolveHandle h r s) = notifyResolve s"
  "finished (resolveHandle h r s) = finished s"
  "notified (resolveHandle h r s) = notified s"
  "nextPromise (resolveHandle h r s) = nextPromise s"
  "nextHandle (resolveHandle h r s) = nextHandle s"
  "wprocs (resolveHandle h r s) = wprocs s"
  "eprocs (resolveHandle h r s) = eprocs s"
  "sprocs (resolveHandle h r s) = sprocs s"
  "providerLog (resolveHandle h r s) = providerLog s"
  "startedLog (resolveHandle h r s) = startedLog s"
  "resolvedLog (resolveHandle h r s) = resolvedLog s"
  "rejectedLog (resolveHandle h r s) = rejectedLog s"
  "submitted (resolveHandle h r s) = submitted s"
  "delivered (resolveHandle h r s) = delivered s"
  by (simp_all add: resolveHandle_def split: option.split)

lemma resolveHandle_ceiling [simp]:
  "getMaxConcurrentTasks (resolveHandle h r s) = getMaxConcurrentTasks s"
  by (simp add: getMaxConcurrentTasks_def split: option.split)
lemma ceiling_update [simp]:
  "getMaxConcurrentTasks (s\<lparr>taskProvider := v0\<rparr>) = getMaxConcurrentTasks s"
  "getMaxConcurrentTasks (s\<lparr>pendingTasks := v1\<rparr>) = getMaxConcurrentTasks s"
  "getMaxConcurrentTasks (s\<lparr>runningTasks := v2\<rparr>) = getMaxConcurrentTasks s"
  "getMaxConcurrentTasks (s\<lparr>failedTasks := v3\<rparr>) = getMaxConcurrentTasks s"
  "getMaxConcurrentTasks (s\<lparr>queuedActions := v4\<rparr>) = getMaxConcurrentTasks s"
  "getMaxConcurrentTasks (s\<lparr>runningActions := v5\<rparr>) = getMaxConcurrentTasks s"
  "getMaxConcurrentTasks (s\<lparr>notifyPromise := v6\<rparr>) = getMaxConcurrentTasks s"
  "getMaxConcurrentTasks (s\<lparr>notifyResolve := v7\<rparr>) = getMaxConcurrentTasks s"
  "getMaxConcurrentTasks (s\<lparr>finished := v8\<rparr>) = getMaxConcurrentTasks s"
  "getMaxConcurrentTasks (s\<lparr>notified := v9\<rparr>) = getMaxConcurrentTasks s"
  "getMaxConcurrentTasks (s\<lparr>nextPromise := v10\<rparr>) = getMaxConcurrentTasks s"
  "getMaxConcurrentTasks (s\<lparr>handles := v11\<rparr>) = getMaxConcurrentTasks s"
  "getMaxConcurrentTasks (s\<lparr>nextHandle := v12\<rparr>) = getMaxConcurrentTasks s"
  "getMaxConcurrentTasks (s\<lparr>wprocs := v13\<rparr>) = getMaxConcurrentTasks s"
  "getMaxConcurrentTasks (s\<lparr>eprocs := v14\<rparr>) = getMaxConcurrentTasks s"
  "getMaxConcurrentTasks (s\<lparr>sprocs := v15\<rparr>) = getMaxConcurrentTasks s"
  "getMaxConcurrentTasks (s\<lparr>providerLog := v16\<rparr>) = getMaxConcurrentTasks s"
  "getMaxConcurrentTasks (s\<lparr>startedLog := v17\<rparr>) = getMaxConcurrentTasks s"
  "getMaxConcurrentTasks (s\<lparr>resolvedLog := v18\<rparr>) = getMaxConcurrentTasks s"
  "getMaxConcurrentTasks (s\<lparr>rejectedLog := v19\<rparr>) = getMaxConcurrentTasks s"
  "getMaxConcurrentTasks (s\<lparr>submitted := v20\<rparr>) = getMaxConcurrentTasks s"
  "getMaxConcurrentTasks (s\<lparr>delivered := v21\<rparr>) = getMaxConcurrentTasks s"
  by (simp_all add: getMaxConcurrentTasks_def split: option.split)

section \<open>What each method changes\<close>

lemma take1_tl [simp]: "take (Suc 0) xs @ tl xs = xs"
  by (cases xs) simp_all

lemma taskProviderFromList_effect [simp]:
  "fst (taskProviderFromList tasks) = (case tasks of [] \<Rightarrow> None | t # ts \<Rightarrow> Some t)"
  "snd (taskProviderFromList tasks) = tl tasks"
  by (simp_all add: taskProviderFromList_def split: list.split)

lemma performAction_effect [simp]:
  "fst (performAction x s) = nextHandle s"
  "queuedActions (snd (performAction x s)) = queuedActions s @ [WrappedAction x (nextHandle s)]"
  "nextHandle (snd (performAction x s)) = Suc (nextHandle s)"
  by (simp_all add: performAction_def)

lemma startPendingTasks_effect [simp]:
  "fst (startPendingTasks s) =
     (if num_ge (length (runningTasks s)) (getMaxConcurrentTasks s) then S_Await (fst (waitForNotify s))
      else S_Done)"
  "runningTasks (snd (startPendingTasks s)) =
     (if num_ge (length (runningTasks s)) (getMaxConcurrentTasks s) then runningTasks s
      else runningTasks s @ take 1 (pendingTasks s))"
  "pendingTasks (snd (startPendingTasks s)) =
     (if num_ge (length (runningTasks s)) (getMaxConcurrentTasks s) then pendingTasks s
      else tl (pendingTasks s))"
  "startedLog (snd (startPendingTasks s)) =
     (if num_ge (length (runningTasks s)) (getMaxConcurrentTasks s) then startedLog s
      else startedLog s @ take 1 (pendingTasks s))"
  by (simp_all add: startPendingTasks_def split_beta split: list.split)

lemma spawnStart_effect [simp]:
  "runningTasks (spawnStart s) = runningTasks (snd (startPendingTasks s))"
  "pendingTasks (spawnStart s) = pendingTasks (snd (startPendingTasks s))"
  "startedLog (spawnStart s) = startedLog (snd (startPendingTasks s))"
  by (simp_all add: spawnStart_def split_beta split: start_pc.split)

lemma startNewTask_effect [simp]:
  "fst (startNewTask s) =
     (case taskProvider s of
        None \<Rightarrow> AfterStartNewTask
      | Some tasks \<Rightarrow> AwaitProvider (fst (taskProviderFromList tasks)))"
  "taskProvider (snd (startNewTask s)) = map_option tl (taskProvider s)"
  "providerLog (snd (startNewTask s)) =
     (case taskProvider s of
        None \<Rightarrow> providerLog s
      | Some tasks \<Rightarrow> providerLog s @
          [Invocation (fst (taskProviderFromList tasks)) (length (queuedActions s))
             (length (runningTasks s)) (getMaxConcurrentTasks s)])"
  by (simp_all add: startNewTask_def split_beta split: option.split)

lemma startNewTask_resume_effect [simp]:
  "taskProvider (startNewTask_resume r s) = (case r of None \<Rightarrow> None | Some t \<Rightarrow> taskProvider s)"
  "runningTasks (startNewTask_resume None s) = runningTasks s"
  "pendingTasks (startNewTask_resume None s) = pendingTasks s"
  "startedLog (startNewTask_resume None s) = startedLog s"
  "runningTasks (startNewTask_resume (Some t) s) =
     runningTasks (snd (startPendingTasks (s\<lparr>pendingTasks := pendingTasks s @ [t]\<rparr>)))"
  "pendingTasks (startNewTask_resume (Some t) s) =
     pendingTasks (snd (startPendingTasks (s\<lparr>pendingTasks := pendingTasks s @ [t]\<rparr>)))"
  "startedLog (startNewTask_resume (Some t) s) =
     startedLog (snd (startPendingTasks (s\<lparr>pendingTasks := pendingTasks s @ [t]\<rparr>)))"
  by (simp_all add: startNewTask_resume_def split: option.split)

lemma enqueueTasksIfNeeded_effect:
  "fst (enqueueTasksIfNeeded s) = (if invokes s then Some (fst (startNewTask s)) else None)"
  "taskProvider (snd (enqueueTasksIfNeeded s)) =
     (if invokes s then map_option tl (taskProvider s) else taskProvider s)"
  "providerLog (snd (enqueueTasksIfNeeded s)) =
     (if invokes s then providerLog (snd (startNewTask s)) else providerLog s)"
  by (auto simp: enqueueTasksIfNeeded_def invokes_def split_beta)

lemma enqueueTasksIfNeeded_waits [simp]:
  "\<not> invokes s \<Longrightarrow> fst (enqueueTasksIfNeeded s) = None"
  by (simp add: enqueueTasksIfNeeded_effect)

lemma enqueue_resume_effect [simp]:
  "enqueue_resume (AwaitProvider r) s = (Some AfterStartNewTask, startNewTask_resume r s)"
  "enqueue_resume AfterStartNewTask s = enqueueTasksIfNeeded s"
  by (simp_all add: enqueue_resume_def)

lemma spawnEnqueue_effect [simp]:
  "taskProvider (spawnEnqueue s) = taskProvider (snd (enqueueTasksIfNeeded s))"
  "providerLog (spawnEnqueue s) = providerLog (snd (enqueueTasksIfNeeded s))"
  "eprocs (spawnEnqueue s) =
     (case fst (enqueueTasksIfNeeded s) of
        None \<Rightarrow> eprocs s
      | Some pc \<Rightarrow> eprocs s @ [Some pc])"
  by (simp_all add: spawnEnqueue_def split_beta split: option.split)

text \<open>The state in which the callbacks of a settled task call \<open>enqueueTasksIfNeeded\<close>.\<close>

lemma task_then_effect [simp]:
  "runningTasks (task_then t s) = remove1 t (runningTasks s)"
  "taskProvider (task_then t s) =
     taskProvider (snd (enqueueTasksIfNeeded (notifyAll (s\<lparr>runningTasks := remove1 t (runningTasks s)\<rparr>))))"
  "providerLog (task_then t s) =
     providerLog (snd (enqueueTasksIfNeeded (notifyAll (s\<lparr>runningTasks := remove1 t (runningTasks s)\<rparr>))))"
  "eprocs (task_then t s) =
     (case fst (enqueueTasksIfNeeded (notifyAll (s\<lparr>runningTasks := remove1 t (runningTasks s)\<rparr>))) of
        None \<Rightarrow> eprocs s
      | Some pc \<Rightarrow> eprocs s @ [Some pc])"
  by (simp_all add: task_then_def split: option.split)

lemma task_catch_effect [simp]:
  "runningTasks (task_catch t s) = remove1 t (runningTasks s)"
  "failedTasks (task_catch t s) = failedTasks s @ [t]"
  "taskProvider (task_catch t s) =
     taskProvider (snd (enqueueTasksIfNeeded (notifyAll (s\<lparr>failedTasks := failedTasks s @ [t],
         runningTasks := remove1 t (runningTasks s)\<rparr>))))"
  "providerLog (task_catch t s) =
     providerLog (snd (enqueueTasksIfNeeded (notifyAll (s\<lparr>failedTasks := failedTasks s @ [t],
         runningTasks := remove1 t (runningTasks s)\<rparr>))))"
  "eprocs (task_catch t s) =
     (case fst (enqueueTasksIfNeeded (notifyAll (s\<lparr>failedTasks := failedTasks s @ [t],
         runningTasks := remove1 t (runningTasks s)\<rparr>))) of
        None \<Rightarrow> eprocs s
      | Some pc \<Rightarrow> eprocs s @ [Some pc])"
  by (simp_all add: task_catch_def split: option.split)

lemma getNextAction_resume_effect [simp]:
  "fst (getNextAction_resume s) =
     (case queuedActions s of
        x # q \<Rightarrow> Got x
      | [] \<Rightarrow> if runningTasks s \<noteq> [] then Wait (fst (waitForNotify s)) else no_actions)"
  "queuedActions (snd (getNextAction_resume s)) = tl (queuedActions s)"
  "runningActions (snd (getNextAction_resume s)) = runningActions s @ take 1 (queuedActions s)"
  "finished (snd (getNextAction_resume s)) =
     (finished s \<or> queuedActions s = [] \<and> runningTasks s = [])"
  by (simp_all add: getNextAction_resume_def split_beta split: list.split)

lemma distributeAction_effect [simp]:
  "fst (distributeAction s) =
     (case fst (enqueueTasksIfNeeded s) of None \<Rightarrow> W_AfterEnqueue | Some pc \<Rightarrow> W_Enqueue pc)"
  "taskProvider (snd (distributeAction s)) = taskProvider (snd (enqueueTasksIfNeeded s))"
  "providerLog (snd (distributeAction s)) = providerLog (snd (enqueueTasksIfNeeded s))"
  by (simp_all add: distributeAction_def split_beta split: option.split)

lemma setW_effect [simp]: "wprocs (setW i pc s) = (wprocs s)[i := pc]"
  by (simp add: setW_def)

lemma worker_next_effect [simp]:
  "queuedActions (worker_next i s) = tl (queuedActions s)"
  "runningActions (worker_next i s) = runningActions s @ take 1 (queuedActions s)"
  "delivered (worker_next i s) = delivered s @ take 1 (queuedActions s)"
  "finished (worker_next i s) = (finished s \<or> queuedActions s = [] \<and> runningTasks s = [])"
  "wprocs (worker_next i s) = (wprocs s)
     [i := (case queuedActions s of
              x # q \<Rightarrow> W_Running x
            | [] \<Rightarrow> if runningTasks s \<noteq> [] then W_Await (fst (waitForNotify s))
                    else W_Returned no_more_actions)]"
  by (simp_all add: worker_next_def split_beta split: next_action.split list.split)

lemma resolveHandle_effect [simp]:
  "handles (resolveHandle h r s) =
     (case handles s h of None \<Rightarrow> (handles s)(h \<mapsto> r) | Some _ \<Rightarrow> handles s)"
  by (simp add: resolveHandle_def split: option.split)

section \<open>The steps of a run\<close>

lemma worker_resume_enqueue [simp]:
  "worker_resume (W_Enqueue (AwaitProvider r)) i s =
     Some (setW i (W_Enqueue AfterStartNewTask) (startNewTask_resume r s))"
  "worker_resume (W_Enqueue AfterStartNewTask) i s =
     Some (setW i (fst (distributeAction s)) (snd (distributeAction s)))"
  by (simp_all add: distributeAction_def split_beta split: option.split)

lemma step_cases [consumes 1, case_names Register Provided Loop Next Restart Done RunnerOk
    RunnerFail Perform Resolve Reject EProvided ELoop Start]:
  assumes "step e s = Some s'"
  obtains
    (Register) w where "e = RegisterWorker w"
      "s' = (snd (distributeAction (s\<lparr>workers := workers s @ [w]\<rparr>)))
              \<lparr>wprocs := wprocs s @ [fst (distributeAction (s\<lparr>workers := workers s @ [w]\<rparr>))]\<rparr>"
  | (Provided) i r where "e = WorkerResume i" "i < length (wprocs s)"
      "wprocs s ! i = W_Enqueue (AwaitProvider r)"
      "s' = setW i (W_Enqueue AfterStartNewTask) (startNewTask_resume r s)"
  | (Loop) i where "e = WorkerResume i" "i < length (wprocs s)"
      "wprocs s ! i = W_Enqueue AfterStartNewTask"
      "s' = setW i (fst (distributeAction s)) (snd (distributeAction s))"
  | (Next) i where "e = WorkerResume i" "i < length (wprocs s)"
      "wprocs s ! i = W_AfterEnqueue \<or> (\<exists>h. wprocs s ! i = W_Await h \<and> ready h s)"
      "s' = worker_next i s"
  | (Restart) i r where "e = WorkerResume i" "i < length (wprocs s)"
      "wprocs s ! i = W_Returned r" "r \<noteq> no_more_actions"
      "s' = setW i (fst (distributeAction s)) (snd (distributeAction s))"
  | (Done) i where "e = WorkerResume i" "i < length (wprocs s)"
      "wprocs s ! i = W_Returned no_more_actions" "s' = setW i W_Done s"
  | (RunnerOk) i r x where "e = RunnerResolve i r" "i < length (wprocs s)"
      "wprocs s ! i = W_Running x"
      "s' = setW i (W_Returned succeeded) (resolveHandle (callback x) r s)"
  | (RunnerFail) i x where "e = RunnerReject i" "i < length (wprocs s)"
      "wprocs s ! i = W_Running x" "s' = setW i (W_Returned failed) s"
  | (Perform) t x where "e = TaskPerform t x" "t \<in> set (runningTasks s)"
      "s' = (snd (performAction x s))\<lparr>submitted := submitted s @ [WrappedAction x (nextHandle s)]\<rparr>"
  | (Resolve) t where "e = TaskResolve t" "t \<in> set (runningTasks s)"
      "s' = task_then t (s\<lparr>resolvedLog := resolvedLog s @ [t]\<rparr>)"
  | (Reject) t where "e = TaskReject t" "t \<in> set (runningTasks s)"
      "s' = task_catch t (s\<lparr>rejectedLog := rejectedLog s @ [t]\<rparr>)"
  | (EProvided) j r where "e = EnqueueResume j" "j < length (eprocs s)"
      "eprocs s ! j = Some (AwaitProvider r)"
      "s' = (startNewTask_resume r s)\<lparr>eprocs := (eprocs s)[j := Some AfterStartNewTask]\<rparr>"
  | (ELoop) j where "e = EnqueueResume j" "j < length (eprocs s)"
      "eprocs s ! j = Some AfterStartNewTask"
      "s' = (snd (enqueueTasksIfNeeded s))\<lparr>eprocs := (eprocs s)[j := fst (enqueueTasksIfNeeded s)]\<rparr>"
  | (Start) k h where "e = StartResume k" "k < length (sprocs s)"
      "sprocs s ! k = S_Await h" "ready h s"
      "s' = (snd (startPendingTasks s))\<lparr>sprocs := (sprocs s)[k := fst (startPendingTasks s)]\<rparr>"
proof (cases e)
  case (RegisterWorker w)
  with assms have "s' = (snd (distributeAction (s\<lparr>workers := workers s @ [w]\<rparr>)))
      \<lparr>wprocs := wprocs s @ [fst (distributeAction (s\<lparr>workers := workers s @ [w]\<rparr>))]\<rparr>"
    by (simp add: split_beta del: distributeAction_effect)
  with RegisterWorker show ?thesis by (rule Register)
next
  case (WorkerResume i)
  with assms have i: "i < length (wprocs s)" and r: "worker_resume (wprocs s ! i) i s = Some s'"
    by (auto split: if_splits)
  show ?thesis
  proof (cases "wprocs s ! i")
    case (W_Enqueue pc)
    show ?thesis
    proof (cases pc)
      case (AwaitProvider a)
      with r W_Enqueue worker_resume_enqueue(1)[of a i s]
      have "s' = setW i (W_Enqueue AfterStartNewTask) (startNewTask_resume a s)"
        by (simp del: worker_resume.simps)
      with WorkerResume i W_Enqueue AwaitProvider show ?thesis by (simp add: Provided)
    next
      case AfterStartNewTask
      with r W_Enqueue worker_resume_enqueue(2)[of i s]
      have "s' = setW i (fst (distributeAction s)) (snd (distributeAction s))"
        by (simp del: distributeAction_effect worker_resume.simps)
      with WorkerResume i W_Enqueue AfterStartNewTask show ?thesis by (simp add: Loop)
    qed
  next
    case W_AfterEnqueue
    with r have "s' = worker_next i s" by simp
    with WorkerResume i W_AfterEnqueue show ?thesis by (simp add: Next)
  next
    case (W_Await h)
    with r have "ready h s" "s' = worker_next i s" by (simp_all split: if_splits)
    with WorkerResume i W_Await show ?thesis by (simp add: Next)
  next
    case (W_Running x)
    with r show ?thesis by simp
  next
    case (W_Returned r')
    show ?thesis
    proof (cases "r' = no_more_actions")
      case True
      with r W_Returned have "s' = setW i W_Done s" by simp
      with WorkerResume i W_Returned True show ?thesis by (simp add: Done)
    next
      case False
      with r W_Returned
      have "s' = setW i (fst (distributeAction s)) (snd (distributeAction s))"
        by (simp add: split_beta del: distributeAction_effect)
      with WorkerResume i W_Returned False show ?thesis by (simp add: Restart)
    qed
  next
    case W_Done
    with r show ?thesis by simp
  qed
next
  case (RunnerResolve i r)
  with assms obtain x where "i < length (wprocs s)" "wprocs s ! i = W_Running x"
    "s' = setW i (W_Returned succeeded) (resolveHandle (callback x) r s)"
    by (auto split: if_splits worker_pc.splits)
  with RunnerResolve show ?thesis by (simp add: RunnerOk)
next
  case (RunnerReject i)
  with assms obtain x where "i < length (wprocs s)" "wprocs s ! i = W_Running x"
    "s' = setW i (W_Returned failed) s"
    by (auto split: if_splits worker_pc.splits)
  with RunnerReject show ?thesis by (simp add: RunnerFail)
next
  case (TaskPerform t x)
  with assms have "t \<in> set (runningTasks s)"
    "s' = (snd (performAction x s))\<lparr>submitted := submitted s @ [WrappedAction x (nextHandle s)]\<rparr>"
    by (auto simp: split_beta split: if_splits)
  with TaskPerform show ?thesis by (simp add: Perform)
next
  case (TaskResolve t)
  with assms have "t \<in> set (runningTasks s)"
    "s' = task_then t (s\<lparr>resolvedLog := resolvedLog s @ [t]\<rparr>)"
    by (auto split: if_splits)
  with TaskResolve show ?thesis by (simp add: Resolve)
next
  case (TaskReject t)
  with assms have "t \<in> set (runningTasks s)"
    "s' = task_catch t (s\<lparr>rejectedLog := rejectedLog s @ [t]\<rparr>)"
    by (auto split: if_splits)
  with TaskReject show ?thesis by (simp add: Reject)
next
  case (EnqueueResume j)
  with assms obtain pc where j: "j < length (eprocs s)" and pc: "eprocs s ! j = Some pc"
    and s': "s' = (snd (enqueue_resume pc s))
                    \<lparr>eprocs := (eprocs (snd (enqueue_resume pc s)))[j := fst (enqueue_resume pc s)]\<rparr>"
    by (auto simp: split_beta split: if_splits option.splits)
  show ?thesis
  proof (cases pc)
    case (AwaitProvider a)
    with s' have "s' = (startNewTask_resume a s)\<lparr>eprocs := (eprocs s)[j := Some AfterStartNewTask]\<rparr>"
      by simp
    with EnqueueResume j pc AwaitProvider show ?thesis by (simp add: EProvided)
  next
    case AfterStartNewTask
    with s' have "s' = (snd (enqueueTasksIfNeeded s))
         \<lparr>eprocs := (eprocs s)[j := fst (enqueueTasksIfNeeded s)]\<rparr>"
      by (simp del: enqueueTasksIfNeeded_effect)
    with EnqueueResume j pc AfterStartNewTask show ?thesis by (simp add: ELoop)
  qed
next
  case (StartResume k)
  with assms obtain h where "k < length (sprocs s)" "sprocs s ! k = S_Await h" "ready h s"
    "s' = (snd (startPendingTasks s))
            \<lparr>sprocs := (sprocs (snd (startPendingTasks s)))[k := fst (startPendingTasks s)]\<rparr>"
    by (auto simp: split_beta simp del: startPendingTasks_effect split: if_splits start_pc.splits)
  with StartResume show ?thesis by (simp add: Start del: startPendingTasks_effect)
qed

lemma run_Cons_Some:
  "run (e # es) s = Some s' \<Longrightarrow> \<exists>s1. step e s = Some s1 \<and> run es s1 = Some s'"
  by (auto split: option.splits)

lemma run_invariant:
  assumes "\<And>e s s'. step e s = Some s' \<Longrightarrow> P s \<Longrightarrow> P s'"
  shows "run es s = Some s' \<Longrightarrow> P s \<Longrightarrow> P s'"
proof (induction es arbitrary: s)
  case Nil
  then show ?case by simp
next
  case (Cons e es)
  from run_Cons_Some[OF Cons.prems(1)] obtain s1
    where "step e s = Some s1" "run es s1 = Some s'" by blast
  with Cons.IH assms Cons.prems(2) show ?case by blast
qed

subsection \<open>The registered workers\<close>

lemma step_workers:
  "step e s = Some s' \<Longrightarrow>
     workers s' = workers s @ registered [e] \<and> maxConcurrentTasks s' = maxConcurrentTasks s"
  by (cases rule: step_cases) auto

lemma registered_Cons: "registered (e # es) = registered [e] @ registered es"
  by (cases e) simp_all

lemma run_workers:
  "run es s = Some s' \<Longrightarrow>
     workers s' = workers s @ registered es \<and> maxConcurrentTasks s' = maxConcurrentTasks s"
proof (induction es arbitrary: s)
  case Nil
  then show ?case by simp
next
  case (Cons e es)
  from run_Cons_Some[OF Cons.prems] obtain s1
    where s1: "step e s = Some s1" "run es s1 = Some s'" by blast
  from Cons.IH[OF s1(2)] step_workers[OF s1(1)] registered_Cons[of e es]
  show ?case by simp
qed

subsection \<open>The queue and the registry of dequeued actions\<close>

lemma step_fifo:
  "step e s = Some s' \<Longrightarrow> fifo s \<Longrightarrow> fifo s'"
  by (cases rule: step_cases) (auto simp: fifo_def)

lemma new_Operation_fifo: "fifo (new_Operation tasks m)"
  by (simp add: fifo_def new_Operation_def)

subsection \<open>Running tasks and the ceiling\<close>

lemma is_count_nat: "is_count c \<Longrightarrow> \<exists>k::nat. c = Num (real k)"
proof (cases c)
  case (Num r)
  assume "is_count c"
  with Num have r: "0 \<le> r" "r = real_of_int \<lfloor>r\<rfloor>" by simp_all
  then have "0 \<le> \<lfloor>r\<rfloor>" by simp
  then have "real (nat \<lfloor>r\<rfloor>) = real_of_int \<lfloor>r\<rfloor>" by simp
  with r(2) Num have "c = Num (real (nat \<lfloor>r\<rfloor>))" by simp
  then show ?thesis ..
qed simp_all

lemma count_ceiling_nat:
  assumes "count_ceiling (maxConcurrentTasks s)"
  shows "\<exists>k::nat. getMaxConcurrentTasks s = Num (real k)"
proof (cases "maxConcurrentTasks s")
  case None
  then have "getMaxConcurrentTasks s = Num (real (length (workers s) * 3))"
    by (simp add: getMaxConcurrentTasks_def)
  then show ?thesis ..
next
  case (Some c)
  with assms have "is_count c" by (simp add: count_ceiling_def)
  from is_count_nat[OF this] Some show ?thesis
    by (simp add: getMaxConcurrentTasks_def)
qed

lemma new_Operation_bounded: "bounded (new_Operation tasks m)"
proof (cases m)
  case None
  then show ?thesis by (simp add: bounded_def new_Operation_def getMaxConcurrentTasks_def)
next
  case (Some c)
  then show ?thesis
    by (cases c) (simp_all add: bounded_def new_Operation_def getMaxConcurrentTasks_def
        count_ceiling_def)
qed

lemma num_le_Suc:
  "c = Num (real k) \<Longrightarrow> num_le n c \<Longrightarrow> \<not> num_ge n c \<Longrightarrow> num_le (Suc n) c"
  by auto

lemma num_le_mono: "n' \<le> n \<Longrightarrow> num_le n c \<Longrightarrow> num_le n' c"
  by (cases c) auto

lemma startPendingTasks_bounded:
  assumes "bounded s"
  shows "bounded (snd (startPendingTasks s))"
proof (cases "count_ceiling (maxConcurrentTasks s)")
  case True
  from count_ceiling_nat[OF True] obtain k where k: "getMaxConcurrentTasks s = Num (real k)" ..
  from assms True have le: "num_le (length (runningTasks s)) (getMaxConcurrentTasks s)"
    by (simp add: bounded_def)
  show ?thesis
  proof (cases "num_ge (length (runningTasks s)) (getMaxConcurrentTasks s)")
    case True
    with le show ?thesis by (simp add: bounded_def)
  next
    case False
    from num_le_Suc[OF k le False] le False show ?thesis
      by (cases "pendingTasks s") (simp_all add: bounded_def)
  qed
next
  case False
  then show ?thesis by (simp add: bounded_def)
qed

lemma startNewTask_resume_bounded:
  assumes "bounded s"
  shows "bounded (startNewTask_resume r s)"
proof (cases r)
  case None
  with assms show ?thesis by (simp add: bounded_def)
next
  case (Some t)
  have "bounded (s\<lparr>pendingTasks := pendingTasks s @ [t]\<rparr>)"
    using assms by (simp add: bounded_def)
  from startPendingTasks_bounded[OF this] Some show ?thesis
    by (simp add: bounded_def del: startPendingTasks_effect)
qed

lemma remove1_length_le: "length (remove1 x xs) \<le> length xs"
  by (simp add: length_remove1)

lemma ceiling_register:
  "num_le n (getMaxConcurrentTasks s) \<Longrightarrow>
     num_le n (getMaxConcurrentTasks (s\<lparr>workers := workers s @ [w]\<rparr>))"
  by (simp add: getMaxConcurrentTasks_def split: option.splits)

lemma step_bounded:
  assumes "step e s = Some s'" "bounded s"
  shows "bounded s'"
  using assms(1)
proof (cases rule: step_cases)
  case (Register w)
  with assms(2) ceiling_register[of "length (runningTasks s)" s w] show ?thesis
    by (simp add: bounded_def)
next
  case (Provided i r)
  with startNewTask_resume_bounded[OF assms(2), of r] show ?thesis by (simp add: bounded_def)
next
  case (Resolve t)
  with assms(2) num_le_mono[OF remove1_length_le[of t "runningTasks s"]] show ?thesis
    by (auto simp: bounded_def)
next
  case (Reject t)
  with assms(2) num_le_mono[OF remove1_length_le[of t "runningTasks s"]] show ?thesis
    by (auto simp: bounded_def)
next
  case (EProvided j r)
  with startNewTask_resume_bounded[OF assms(2), of r] show ?thesis by (simp add: bounded_def)
next
  case (Start k h)
  with startPendingTasks_bounded[OF assms(2)] show ?thesis
    by (simp add: bounded_def del: startPendingTasks_effect)
qed (use assms(2) in \<open>simp_all add: bounded_def\<close>)

lemma step_runningActions_grow:
  "step e s = Some s' \<Longrightarrow> \<exists>ys. runningActions s' = runningActions s @ ys"
  by (cases rule: step_cases) auto

lemma run_runningActions_grow:
  "run es s = Some s' \<Longrightarrow> \<exists>ys. runningActions s' = runningActions s @ ys"
proof (induction es arbitrary: s)
  case Nil
  then show ?case by simp
next
  case (Cons e es)
  from run_Cons_Some[OF Cons.prems] obtain s1
    where s1: "step e s = Some s1" "run es s1 = Some s'" by blast
  from Cons.IH[OF s1(2)] step_runningActions_grow[OF s1(1)] show ?case by auto
qed

subsection \<open>Calls of the provider\<close>

lemma ceiling_NaN:
  "getMaxConcurrentTasks s = NaN \<Longrightarrow> maxConcurrentTasks s = Some NaN"
  by (simp add: getMaxConcurrentTasks_def split: option.splits)

lemma enqueueTasksIfNeeded_log:
  "maxConcurrentTasks s = m \<Longrightarrow> list_all (invoked_when_needed m) (providerLog s) \<Longrightarrow>
     list_all (invoked_when_needed m) (providerLog (snd (enqueueTasksIfNeeded s)))"
  by (auto simp: enqueueTasksIfNeeded_effect invokes_def invoked_when_needed_def
      dest: ceiling_NaN split: option.split)

lemma step_log:
  assumes "step e s = Some s'" "log_ok m s"
  shows "log_ok m s'"
  using assms(1)
proof (cases rule: step_cases)
qed (use assms(2) in \<open>simp_all add: log_ok_def enqueueTasksIfNeeded_log\<close>)

lemma below_ceiling: "\<not> num_ge n c \<Longrightarrow> c \<noteq> NaN \<Longrightarrow> num_lt n c"
  by (cases c) auto

lemma enqueueTasksIfNeeded_exhausted:
  "taskProvider s = None \<Longrightarrow>
     taskProvider (snd (enqueueTasksIfNeeded s)) = None \<and>
     providerLog (snd (enqueueTasksIfNeeded s)) = providerLog s"
  by (simp add: enqueueTasksIfNeeded_effect invokes_def)

lemma step_exhausted:
  assumes "step e s = Some s'" "taskProvider s = None"
  shows "taskProvider s' = None \<and> providerLog s' = providerLog s"
  using assms(1)
proof (cases rule: step_cases)
  case (Provided i r)
  with assms(2) show ?thesis by (cases r) simp_all
next
  case (EProvided j r)
  with assms(2) show ?thesis by (cases r) simp_all
qed (use assms(2) in \<open>simp_all add: enqueueTasksIfNeeded_exhausted\<close>)

lemma run_exhausted:
  "run es s = Some s' \<Longrightarrow> taskProvider s = None \<Longrightarrow>
     taskProvider s' = None \<and> providerLog s' = providerLog s"
proof (induction es arbitrary: s)
  case Nil
  then show ?case by simp
next
  case (Cons e es)
  from run_Cons_Some[OF Cons.prems(1)] obtain s1
    where s1: "step e s = Some s1" "run es s1 = Some s'" by blast
  from step_exhausted[OF s1(1) Cons.prems(2)] Cons.IH[OF s1(2)] show ?case by simp
qed

lemma step_delivers_exhaustion:
  assumes "step e s = Some s'" "delivers_exhaustion e s"
  shows "taskProvider s' = None \<and> providerLog s' = providerLog s"
  using assms by (cases rule: step_cases) auto

subsection \<open>Where the tasks are\<close>

lemma sum_list_map_update:
  fixes f :: "'a \<Rightarrow> 'b multiset"
  shows "i < length xs \<Longrightarrow>
    sum_list (map f (xs[i := v])) + f (xs ! i) = sum_list (map f xs) + f v"
proof (induction xs arbitrary: i)
  case Nil
  then show ?case by simp
next
  case (Cons x xs)
  show ?case
  proof (cases i)
    case 0
    then show ?thesis by simp
  next
    case (Suc j)
    with Cons.prems have "j < length xs" by simp
    from Cons.IH[OF this] Suc show ?thesis by (simp add: ac_simps)
  qed
qed

lemma in_set_updateD: "y \<in> set (xs[i := x]) \<Longrightarrow> y = x \<or> y \<in> set xs"
  using set_update_subset_insert[of xs i x] by auto

lemma inflight_worker:
  assumes "i < length (wprocs s)" "wprocs s' = (wprocs s)[i := pc]" "eprocs s' = eprocs s"
  shows "inflight s' + worker_task (wprocs s ! i) = inflight s + worker_task pc"
  using sum_list_map_update[OF assms(1), of worker_task pc] assms(2,3)
  by (simp add: inflight_def ac_simps)

lemma inflight_eproc:
  assumes "j < length (eprocs s)" "eprocs s' = (eprocs s)[j := pc]" "wprocs s' = wprocs s"
  shows "inflight s' + eproc_task (eprocs s ! j) = inflight s + eproc_task pc"
  using sum_list_map_update[OF assms(1), of eproc_task pc] assms(2,3)
  by (simp add: inflight_def ac_simps)

lemma inflight_new_worker:
  "wprocs s' = wprocs s @ [pc] \<Longrightarrow> eprocs s' = eprocs s \<Longrightarrow>
     inflight s' = inflight s + worker_task pc"
  by (simp add: inflight_def)

lemma enqueue_supply:
  "mset (remaining (snd (enqueueTasksIfNeeded s))) + eproc_task (fst (enqueueTasksIfNeeded s)) =
     mset (remaining s)"
  by (auto simp: enqueueTasksIfNeeded_effect remaining_def invokes_def split: list.split)

lemma distributeAction_task:
  "worker_task (fst (distributeAction s)) = eproc_task (fst (enqueueTasksIfNeeded s))"
  by (simp split: option.split)

lemma remaining_cong: "taskProvider s' = taskProvider s \<Longrightarrow> remaining s' = remaining s"
  by (simp add: remaining_def)

lemma enqueue_remaining_empty:
  "remaining s = [] \<Longrightarrow> remaining (snd (enqueueTasksIfNeeded s)) = []"
  by (auto simp: enqueueTasksIfNeeded_effect remaining_def split: option.splits)

lemma enqueue_exhaustion:
  "fst (enqueueTasksIfNeeded s) = Some (AwaitProvider None) \<Longrightarrow>
     remaining (snd (enqueueTasksIfNeeded s)) = []"
  by (auto simp: enqueueTasksIfNeeded_effect remaining_def split: option.splits list.splits if_splits)

lemma startPendingTasks_tasks:
  "mset (pendingTasks (snd (startPendingTasks s))) + mset (runningTasks (snd (startPendingTasks s))) =
     mset (pendingTasks s) + mset (runningTasks s)"
  by (cases "pendingTasks s") simp_all

lemma startNewTask_resume_tasks:
  "mset (pendingTasks (startNewTask_resume r s)) + mset (runningTasks (startNewTask_resume r s)) =
     mset (pendingTasks s) + mset (runningTasks s) + enq_task (AwaitProvider r)"
proof (cases r)
  case None
  then show ?thesis by simp
next
  case (Some t)
  with startPendingTasks_tasks[of "s\<lparr>pendingTasks := pendingTasks s @ [t]\<rparr>"]
  show ?thesis by (simp del: startPendingTasks_effect)
qed

lemma startNewTask_resume_remaining:
  "r = None \<longrightarrow> remaining s = [] \<Longrightarrow> remaining (startNewTask_resume r s) = remaining s"
  by (cases r) (simp_all add: remaining_def)

lemma worker_next_inflight:
  assumes "i < length (wprocs s)" "worker_task (wprocs s ! i) = {#}"
  shows "inflight (worker_next i s) = inflight s"
proof -
  let ?pc = "case queuedActions s of
      x # q \<Rightarrow> W_Running x
    | [] \<Rightarrow> if runningTasks s \<noteq> [] then W_Await (fst (waitForNotify s))
            else W_Returned no_more_actions"
  have "worker_task ?pc = {#}" by (simp split: list.split)
  with inflight_worker[of i s "worker_next i s" ?pc] assms show ?thesis by simp
qed

lemma step_all_tasks:
  assumes "step e s = Some s'" "exhausted_ok s"
  shows "all_tasks s' = all_tasks s"
  using assms(1)
proof (cases rule: step_cases)
  case (Register w)
  let ?S = "s\<lparr>workers := workers s @ [w]\<rparr>"
  have "inflight s' = inflight s + eproc_task (fst (enqueueTasksIfNeeded ?S))"
    using Register inflight_new_worker[of s' s "fst (distributeAction ?S)"]
    by (simp add: distributeAction_task del: distributeAction_effect)
  moreover have "mset (remaining s) =
      mset (remaining s') + eproc_task (fst (enqueueTasksIfNeeded ?S))"
    using Register enqueue_supply[of ?S] remaining_cong[of s' "snd (enqueueTasksIfNeeded ?S)"]
      remaining_cong[of ?S s] by simp
  ultimately show ?thesis using Register by (simp add: all_tasks_def)
next
  case (Provided i r)
  have "inflight s = inflight s' + enq_task (AwaitProvider r)"
    using Provided inflight_worker[of i s s' "W_Enqueue AfterStartNewTask"] by simp
  moreover have "r = None \<longrightarrow> remaining s = []"
    using Provided assms(2) nth_mem[of i "wprocs s"] by (auto simp: exhausted_ok_def)
  then have "remaining s' = remaining s"
    using Provided startNewTask_resume_remaining[of r s]
      remaining_cong[of s' "startNewTask_resume r s"] by simp
  moreover have "mset (pendingTasks s') + mset (runningTasks s') =
      mset (pendingTasks s) + mset (runningTasks s) + enq_task (AwaitProvider r)"
    using Provided startNewTask_resume_tasks[of r s] by simp
  ultimately show ?thesis using Provided
    by (simp add: all_tasks_def ac_simps)
next
  case (Loop i)
  have "inflight s' = inflight s + eproc_task (fst (enqueueTasksIfNeeded s))"
    using Loop inflight_worker[of i s s' "fst (distributeAction s)"]
    by (simp add: distributeAction_task del: distributeAction_effect)
  moreover have "mset (remaining s) = mset (remaining s') + eproc_task (fst (enqueueTasksIfNeeded s))"
    using Loop enqueue_supply[of s] remaining_cong[of s' "snd (enqueueTasksIfNeeded s)"] by simp
  ultimately show ?thesis using Loop by (simp add: all_tasks_def)
next
  case (Next i)
  have "inflight s' = inflight s"
    using Next worker_next_inflight[of i s] by auto
  moreover have "remaining s' = remaining s"
    using Next by (simp add: remaining_def)
  ultimately show ?thesis using Next by (simp add: all_tasks_def)
next
  case (Restart i r)
  have "inflight s' = inflight s + eproc_task (fst (enqueueTasksIfNeeded s))"
    using Restart inflight_worker[of i s s' "fst (distributeAction s)"]
    by (simp add: distributeAction_task del: distributeAction_effect)
  moreover have "mset (remaining s) = mset (remaining s') + eproc_task (fst (enqueueTasksIfNeeded s))"
    using Restart enqueue_supply[of s] remaining_cong[of s' "snd (enqueueTasksIfNeeded s)"] by simp
  ultimately show ?thesis using Restart by (simp add: all_tasks_def)
next
  case (Done i)
  have "inflight s' = inflight s"
    using Done inflight_worker[of i s s' W_Done] by simp
  then show ?thesis using Done by (simp add: all_tasks_def remaining_def)
next
  case (RunnerOk i r x)
  have "inflight s' = inflight s"
    using RunnerOk inflight_worker[of i s s' "W_Returned succeeded"] by simp
  then show ?thesis using RunnerOk by (simp add: all_tasks_def remaining_def)
next
  case (RunnerFail i x)
  have "inflight s' = inflight s"
    using RunnerFail inflight_worker[of i s s' "W_Returned failed"] by simp
  then show ?thesis using RunnerFail by (simp add: all_tasks_def remaining_def)
next
  case (Perform t x)
  have "inflight s' = inflight s"
    using Perform by (simp add: inflight_def)
  then show ?thesis using Perform by (simp add: all_tasks_def remaining_def)
next
  case (Resolve t)
  let ?S = "notifyAll (s\<lparr>resolvedLog := resolvedLog s @ [t],
      runningTasks := remove1 t (runningTasks s)\<rparr>)"
  have "inflight s' = inflight s + eproc_task (fst (enqueueTasksIfNeeded ?S))"
    using Resolve by (simp add: inflight_def split: option.split)
  moreover have "mset (remaining s) =
      mset (remaining s') + eproc_task (fst (enqueueTasksIfNeeded ?S))"
    using Resolve enqueue_supply[of ?S] remaining_cong[of s' "snd (enqueueTasksIfNeeded ?S)"]
      remaining_cong[of ?S s] by simp
  ultimately show ?thesis using Resolve by (simp add: all_tasks_def)
next
  case (Reject t)
  let ?S = "notifyAll (s\<lparr>rejectedLog := rejectedLog s @ [t],
      failedTasks := failedTasks s @ [t], runningTasks := remove1 t (runningTasks s)\<rparr>)"
  have "inflight s' = inflight s + eproc_task (fst (enqueueTasksIfNeeded ?S))"
    using Reject by (simp add: inflight_def split: option.split)
  moreover have "mset (remaining s) =
      mset (remaining s') + eproc_task (fst (enqueueTasksIfNeeded ?S))"
    using Reject enqueue_supply[of ?S] remaining_cong[of s' "snd (enqueueTasksIfNeeded ?S)"]
      remaining_cong[of ?S s] by simp
  ultimately show ?thesis using Reject by (simp add: all_tasks_def)
next
  case (EProvided j r)
  have "inflight s = inflight s' + enq_task (AwaitProvider r)"
    using EProvided inflight_eproc[of j s s' "Some AfterStartNewTask"] by simp
  moreover have "r = None \<longrightarrow> remaining s = []"
    using EProvided assms(2) nth_mem[of j "eprocs s"] by (auto simp: exhausted_ok_def)
  then have "remaining s' = remaining s"
    using EProvided startNewTask_resume_remaining[of r s]
      remaining_cong[of s' "startNewTask_resume r s"] by simp
  moreover have "mset (pendingTasks s') + mset (runningTasks s') =
      mset (pendingTasks s) + mset (runningTasks s) + enq_task (AwaitProvider r)"
    using EProvided startNewTask_resume_tasks[of r s] by simp
  ultimately show ?thesis using EProvided
    by (simp add: all_tasks_def ac_simps)
next
  case (ELoop j)
  have "inflight s' = inflight s + eproc_task (fst (enqueueTasksIfNeeded s))"
    using ELoop inflight_eproc[of j s s' "fst (enqueueTasksIfNeeded s)"] by simp
  moreover have "mset (remaining s) = mset (remaining s') + eproc_task (fst (enqueueTasksIfNeeded s))"
    using ELoop enqueue_supply[of s] remaining_cong[of s' "snd (enqueueTasksIfNeeded s)"] by simp
  ultimately show ?thesis using ELoop by (simp add: all_tasks_def)
next
  case (Start k h)
  have "inflight s' = inflight s"
    using Start by (simp add: inflight_def)
  moreover have "mset (pendingTasks s') + mset (runningTasks s') =
      mset (pendingTasks s) + mset (runningTasks s)"
    using Start startPendingTasks_tasks[of s] by (simp del: startPendingTasks_effect)
  ultimately show ?thesis using Start
    by (simp add: all_tasks_def remaining_def ac_simps del: startPendingTasks_effect)
qed

lemma step_remaining_empty:
  assumes "step e s = Some s'" "remaining s = []"
  shows "remaining s' = []"
  using assms(1)
proof (cases rule: step_cases)
  case (Register w)
  with enqueue_remaining_empty[of "s\<lparr>workers := workers s @ [w]\<rparr>"] assms(2)
  show ?thesis by (simp add: remaining_def)
next
  case (Provided i r)
  with assms(2) show ?thesis by (cases r) (simp_all add: remaining_def)
next
  case (Resolve t)
  with enqueue_remaining_empty[of "notifyAll (s\<lparr>resolvedLog := resolvedLog s @ [t],
      runningTasks := remove1 t (runningTasks s)\<rparr>)"] assms(2)
  show ?thesis by (simp add: remaining_def)
next
  case (Reject t)
  with enqueue_remaining_empty[of "notifyAll (s\<lparr>rejectedLog := rejectedLog s @ [t],
      failedTasks := failedTasks s @ [t], runningTasks := remove1 t (runningTasks s)\<rparr>)"] assms(2)
  show ?thesis by (simp add: remaining_def)
next
  case (EProvided j r)
  with assms(2) show ?thesis by (cases r) (simp_all add: remaining_def)
qed (use assms(2) enqueue_remaining_empty[of s] in \<open>simp_all add: remaining_def\<close>)

lemma distributeAction_exhaustion:
  "fst (distributeAction s) = W_Enqueue (AwaitProvider None) \<Longrightarrow>
     remaining (snd (enqueueTasksIfNeeded s)) = []"
  using enqueue_exhaustion[of s] by (simp split: option.splits)

lemma step_exhausted_ok:
  assumes "step e s = Some s'" "exhausted_ok s"
  shows "exhausted_ok s'"
proof -
  let ?w = "W_Enqueue (AwaitProvider None)" and ?e = "Some (AwaitProvider None)"
  have keep: "remaining s = [] \<Longrightarrow> remaining s' = []"
    using step_remaining_empty[OF assms(1)] .
  have "remaining s' = []" if new: "?w \<in> set (wprocs s') \<or> ?e \<in> set (eprocs s')"
  proof (cases "?w \<in> set (wprocs s) \<or> ?e \<in> set (eprocs s)")
    case True
    with assms(2) keep show ?thesis by (simp add: exhausted_ok_def)
  next
    case False
    from assms(1) show ?thesis
    proof (cases rule: step_cases)
      case (Register w)
      with new False
      have "fst (distributeAction (s\<lparr>workers := workers s @ [w]\<rparr>)) = ?w"
        by (auto simp del: distributeAction_effect)
      from distributeAction_exhaustion[OF this] Register show ?thesis
        by (simp add: remaining_def)
    next
      case (Provided i r)
      with new False show ?thesis by (auto dest: in_set_updateD)
    next
      case (Loop i)
      with new False have "fst (distributeAction s) = ?w"
        by (auto dest: in_set_updateD simp del: distributeAction_effect)
      from distributeAction_exhaustion[OF this] Loop show ?thesis
        by (simp add: remaining_def)
    next
      case (Next i)
      with new False show ?thesis
        by (auto dest!: in_set_updateD split: list.splits if_splits)
    next
      case (Restart i r)
      with new False have "fst (distributeAction s) = ?w"
        by (auto dest: in_set_updateD simp del: distributeAction_effect)
      from distributeAction_exhaustion[OF this] Restart show ?thesis
        by (simp add: remaining_def)
    next
      case (Done i)
      with new False show ?thesis by (auto dest: in_set_updateD)
    next
      case (RunnerOk i r x)
      with new False show ?thesis by (auto dest: in_set_updateD)
    next
      case (RunnerFail i x)
      with new False show ?thesis by (auto dest: in_set_updateD)
    next
      case (Perform t x)
      with new False show ?thesis by auto
    next
      case (Resolve t)
      let ?S = "notifyAll (s\<lparr>resolvedLog := resolvedLog s @ [t],
        runningTasks := remove1 t (runningTasks s)\<rparr>)"
      from Resolve new False have "fst (enqueueTasksIfNeeded ?S) = ?e"
        by (auto split: option.splits)
      from enqueue_exhaustion[OF this] Resolve show ?thesis
        by (simp add: remaining_def)
    next
      case (Reject t)
      let ?S = "notifyAll (s\<lparr>rejectedLog := rejectedLog s @ [t],
        failedTasks := failedTasks s @ [t], runningTasks := remove1 t (runningTasks s)\<rparr>)"
      from Reject new False have "fst (enqueueTasksIfNeeded ?S) = ?e"
        by (auto split: option.splits)
      from enqueue_exhaustion[OF this] Reject show ?thesis
        by (simp add: remaining_def)
    next
      case (EProvided j r)
      with new False show ?thesis by (auto dest: in_set_updateD)
    next
      case (ELoop j)
      with new False have "fst (enqueueTasksIfNeeded s) = ?e"
        by (auto dest: in_set_updateD)
      from enqueue_exhaustion[OF this] ELoop show ?thesis
        by (simp add: remaining_def)
    next
      case (Start k h)
      with new False show ?thesis by auto
    qed
  qed
  then show ?thesis by (simp add: exhausted_ok_def)
qed

lemma running_started:
  assumes "accounted s" "t \<in> set (runningTasks s)"
  shows "t \<in># mset (startedLog s)"
proof -
  from assms(1) have "mset (startedLog s) =
      mset (runningTasks s) + mset (resolvedLog s) + mset (rejectedLog s)"
    by (simp add: accounted_def)
  with assms(2) show ?thesis by simp
qed

lemma startPendingTasks_accounted:
  "mset (runningTasks s) + M = mset (startedLog s) \<Longrightarrow>
   mset (runningTasks (snd (startPendingTasks s))) + M = mset (startedLog (snd (startPendingTasks s)))"
  by (cases "pendingTasks s") auto

lemma startNewTask_resume_accounted:
  "mset (runningTasks s) + M = mset (startedLog s) \<Longrightarrow>
   mset (runningTasks (startNewTask_resume r s)) + M = mset (startedLog (startNewTask_resume r s))"
  using startPendingTasks_accounted[of "s\<lparr>pendingTasks := pendingTasks s @ [the r]\<rparr>" M]
  by (cases r) (simp_all del: startPendingTasks_effect)

lemma step_accounted:
  assumes "step e s = Some s'" "accounted s"
  shows "accounted s'"
  using assms(1)
proof (cases rule: step_cases)
  case (Provided i r)
  with assms(2)
    startNewTask_resume_accounted[of s "mset (resolvedLog s) + mset (rejectedLog s)" r]
  show ?thesis by (simp add: accounted_def ac_simps)
next
  case (EProvided j r)
  with assms(2)
    startNewTask_resume_accounted[of s "mset (resolvedLog s) + mset (rejectedLog s)" r]
  show ?thesis by (simp add: accounted_def ac_simps)
next
  case (Start k h)
  with assms(2)
    startPendingTasks_accounted[of s "mset (resolvedLog s) + mset (rejectedLog s)"]
  show ?thesis by (simp add: accounted_def ac_simps del: startPendingTasks_effect)
next
  case (Resolve t)
  with assms(2) running_started[of s t]
  show ?thesis by (auto simp: accounted_def)
next
  case (Reject t)
  with assms(2) running_started[of s t]
  show ?thesis by (auto simp: accounted_def)
qed (use assms(2) in \<open>simp_all add: accounted_def\<close>)

lemma step_tasks_inv: "step e s = Some s' \<Longrightarrow> tasks_inv M s \<Longrightarrow> tasks_inv M s'"
  using step_all_tasks[of e s s'] step_exhausted_ok[of e s s'] step_accounted[of e s s']
  by (simp add: tasks_inv_def)

lemma new_Operation_tasks_inv: "tasks_inv (mset tasks) (new_Operation tasks m)"
  by (simp add: tasks_inv_def exhausted_ok_def all_tasks_def accounted_def inflight_def
      remaining_def new_Operation_def)

lemma distinct_part:
  assumes "mset xs + M = mset ys" "distinct ys"
  shows "distinct xs"
proof -
  have le: "count (mset xs) a \<le> 1" for a
  proof -
    have "count (mset xs) a \<le> count (mset ys) a"
      using assms(1)[symmetric] by simp
    also have "\<dots> \<le> 1"
      using assms(2) by (simp add: distinct_count_atmost_1)
    finally show ?thesis .
  qed
  have "count (mset xs) a = (if a \<in> set xs then 1 else 0)" for a
  proof (cases "a \<in> set xs")
    case True
    then have "count (mset xs) a \<noteq> 0" by (simp add: count_eq_zero_iff)
    with le[of a] have "count (mset xs) a = 1" by linarith
    with True show ?thesis by (simp only: if_True)
  next
    case False
    then show ?thesis by (simp add: count_eq_zero_iff)
  qed
  then show ?thesis by (simp add: distinct_count_atmost_1)
qed

lemma tasks_inv_distinct:
  assumes "tasks_inv (mset tasks) s" "distinct tasks"
  shows "distinct (runningTasks s @ resolvedLog s @ rejectedLog s)"
proof -
  from assms(1) have "mset (runningTasks s @ resolvedLog s @ rejectedLog s) +
      (mset (remaining s) + inflight s + mset (pendingTasks s)) = mset tasks"
    by (simp add: tasks_inv_def all_tasks_def ac_simps)
  from distinct_part[OF this assms(2)] show ?thesis .
qed

subsection \<open>The promises returned by \<open>performAction\<close>\<close>

lemma pending_worker:
  assumes "i < length (wprocs s)" "wprocs s' = (wprocs s)[i := pc]"
    "queuedActions s' = queuedActions s"
  shows "pendingHandles s' + held (wprocs s ! i) = pendingHandles s + held pc"
  using sum_list_map_update[OF assms(1), of held pc] assms(2,3)
  by (simp add: pendingHandles_def ac_simps)

lemma pending_same:
  "wprocs s' = wprocs s \<Longrightarrow> queuedActions s' = queuedActions s \<Longrightarrow>
     pendingHandles s' = pendingHandles s"
  by (simp add: pendingHandles_def)

lemma distributeAction_held [simp]: "held (fst (distributeAction s)) = {#}"
  by (simp split: option.split)

lemma worker_next_pending:
  assumes "i < length (wprocs s)" "held (wprocs s ! i) = {#}"
  shows "pendingHandles (worker_next i s) = pendingHandles s"
proof -
  let ?pc = "case queuedActions s of
      x # q \<Rightarrow> W_Running x
    | [] \<Rightarrow> if runningTasks s \<noteq> [] then W_Await (fst (waitForNotify s))
            else W_Returned no_more_actions"
  have "sum_list (map held (wprocs (worker_next i s))) =
      sum_list (map held (wprocs s)) + held ?pc"
    using sum_list_map_update[OF assms(1), of held ?pc] assms(2) by simp
  moreover have "mset (map callback (tl (queuedActions s))) + held ?pc =
      mset (map callback (queuedActions s))"
    by (cases "queuedActions s") simp_all
  ultimately show ?thesis
    by (simp add: pendingHandles_def ac_simps)
qed

text \<open>
  A step creates a promise and queues its callback, or a runner settles and the callback
  it held is used or dropped, or the callbacks and the promises are as before.
\<close>

lemma step_handles:
  assumes "step e s = Some s'"
  shows "(pendingHandles s' = pendingHandles s + {#nextHandle s#} \<and>
          nextHandle s' = Suc (nextHandle s) \<and> handles s' = handles s) \<or>
         (\<exists>h r. pendingHandles s = pendingHandles s' + {#h#} \<and> nextHandle s' = nextHandle s \<and>
            (handles s' = handles s \<or> handles s' = (handles s)(h \<mapsto> r))) \<or>
         (pendingHandles s' = pendingHandles s \<and> nextHandle s' = nextHandle s \<and>
          handles s' = handles s)"
  using assms
proof (cases rule: step_cases)
  case (Register w)
  then have "pendingHandles s' = pendingHandles s"
    by (simp add: pendingHandles_def del: distributeAction_effect)
  with Register show ?thesis by simp
next
  case (Provided i r)
  with pending_worker[of i s s' "W_Enqueue AfterStartNewTask"]
  have "pendingHandles s' = pendingHandles s" by simp
  with Provided show ?thesis by simp
next
  case (Loop i)
  with pending_worker[of i s s' "fst (distributeAction s)"]
  have "pendingHandles s' = pendingHandles s" by (simp del: distributeAction_effect)
  with Loop show ?thesis by simp
next
  case (Next i)
  with worker_next_pending[of i s]
  have "pendingHandles s' = pendingHandles s" by auto
  with Next show ?thesis by simp
next
  case (Restart i r)
  with pending_worker[of i s s' "fst (distributeAction s)"]
  have "pendingHandles s' = pendingHandles s" by (simp del: distributeAction_effect)
  with Restart show ?thesis by simp
next
  case (Done i)
  with pending_worker[of i s s' W_Done]
  have "pendingHandles s' = pendingHandles s" by simp
  with Done show ?thesis by simp
next
  case (RunnerOk i r x)
  with pending_worker[of i s s' "W_Returned succeeded"]
  have "pendingHandles s = pendingHandles s' + {#callback x#}" by simp
  moreover have "handles s' = handles s \<or> handles s' = (handles s)(callback x \<mapsto> r)"
    using RunnerOk by (simp split: option.split)
  moreover have "nextHandle s' = nextHandle s" using RunnerOk by simp
  ultimately show ?thesis by blast
next
  case (RunnerFail i x)
  with pending_worker[of i s s' "W_Returned failed"]
  have "pendingHandles s = pendingHandles s' + {#callback x#}" by simp
  moreover have "handles s' = handles s" "nextHandle s' = nextHandle s"
    using RunnerFail by simp_all
  ultimately show ?thesis by blast
next
  case (Perform t x)
  then have "pendingHandles s' = pendingHandles s + {#nextHandle s#}"
    by (simp add: pendingHandles_def)
  with Perform show ?thesis by simp
next
  case (Resolve t)
  then have "pendingHandles s' = pendingHandles s" by (simp add: pendingHandles_def)
  with Resolve show ?thesis by simp
next
  case (Reject t)
  then have "pendingHandles s' = pendingHandles s" by (simp add: pendingHandles_def)
  with Reject show ?thesis by simp
next
  case (EProvided j r)
  then have "pendingHandles s' = pendingHandles s" by (simp add: pendingHandles_def)
  with EProvided show ?thesis by simp
next
  case (ELoop j)
  then have "pendingHandles s' = pendingHandles s" by (simp add: pendingHandles_def)
  with ELoop show ?thesis by simp
next
  case (Start k h)
  then have "pendingHandles s' = pendingHandles s" by (simp add: pendingHandles_def)
  with Start show ?thesis by simp
qed

lemma step_handles_ok:
  assumes "step e s = Some s'" "handles_ok s"
  shows "handles_ok s'"
proof -
  from assms(2) have once: "\<And>h. count (pendingHandles s) h \<le> 1"
    and live: "\<And>h. h \<in># pendingHandles s \<Longrightarrow> h < nextHandle s \<and> handles s h = None"
    and made: "\<And>h. handles s h \<noteq> None \<Longrightarrow> h < nextHandle s"
    by (auto simp: handles_ok_def)
  from step_handles[OF assms(1)] consider
    (new) "pendingHandles s' = pendingHandles s + {#nextHandle s#}"
      "nextHandle s' = Suc (nextHandle s)" "handles s' = handles s"
  | (settle) h r where "pendingHandles s = pendingHandles s' + {#h#}"
      "nextHandle s' = nextHandle s"
      "handles s' = handles s \<or> handles s' = (handles s)(h \<mapsto> r)"
  | (same) "pendingHandles s' = pendingHandles s" "nextHandle s' = nextHandle s"
      "handles s' = handles s"
    by blast
  then show ?thesis
  proof cases
    case new
    have fresh: "nextHandle s \<notin># pendingHandles s"
      using live[of "nextHandle s"] by auto
    have "count (pendingHandles s') h \<le> 1" for h
      using once[of h] fresh new(1) by (cases "h = nextHandle s") (simp_all add: not_in_iff)
    moreover have "h < nextHandle s' \<and> handles s' h = None" if "h \<in># pendingHandles s'" for h
    proof (cases "h = nextHandle s")
      case True
      have "handles s (nextHandle s) = None"
        using made[of "nextHandle s"] by (cases "handles s (nextHandle s)") auto
      with True new show ?thesis by simp
    next
      case False
      with that new(1) have "h \<in># pendingHandles s" by simp
      from live[OF this] new show ?thesis by simp
    qed
    moreover have "h < nextHandle s'" if "handles s' h \<noteq> None" for h
      using made[of h] that new by simp
    ultimately show ?thesis unfolding handles_ok_def by blast
  next
    case settle
    have cnt: "count (pendingHandles s) k = count (pendingHandles s') k + (if k = h then 1 else 0)"
      for k using settle(1) by simp
    have "count (pendingHandles s') k \<le> 1" for k
      using once[of k] cnt[of k] by simp
    moreover have gone: "h \<notin># pendingHandles s'"
      using once[of h] cnt[of h] by (simp add: not_in_iff)
    have sub: "k \<in># pendingHandles s" if "k \<in># pendingHandles s'" for k
      using that settle(1) by simp
    have "k < nextHandle s' \<and> handles s' k = None" if "k \<in># pendingHandles s'" for k
    proof -
      from that gone have "k \<noteq> h" by auto
      with live[OF sub[OF that]] settle(2,3) show ?thesis by auto
    qed
    moreover have "k < nextHandle s'" if "handles s' k \<noteq> None" for k
    proof (cases "k = h")
      case True
      have "h \<in># pendingHandles s" using settle(1) by simp
      from live[OF this] True settle(2) show ?thesis by simp
    next
      case False
      with that settle(3) have "handles s k \<noteq> None" by auto
      from made[OF this] settle(2) show ?thesis by simp
    qed
    ultimately show ?thesis unfolding handles_ok_def by blast
  next
    case same
    with assms(2) show ?thesis by (simp add: handles_ok_def)
  qed
qed

lemma step_abandoned:
  assumes "step e s = Some s'" "handles_ok s" "abandoned h s"
  shows "abandoned h s'"
proof -
  from assms(3) have h: "h < nextHandle s" "h \<notin># pendingHandles s" "handles s h = None"
    by (simp_all add: abandoned_def)
  from step_handles[OF assms(1)] consider
    (new) "pendingHandles s' = pendingHandles s + {#nextHandle s#}"
      "nextHandle s' = Suc (nextHandle s)" "handles s' = handles s"
  | (settle) k r where "pendingHandles s = pendingHandles s' + {#k#}"
      "nextHandle s' = nextHandle s"
      "handles s' = handles s \<or> handles s' = (handles s)(k \<mapsto> r)"
  | (same) "pendingHandles s' = pendingHandles s" "nextHandle s' = nextHandle s"
      "handles s' = handles s"
    by blast
  then show ?thesis
  proof cases
    case new
    with h show ?thesis by (auto simp: abandoned_def)
  next
    case settle
    have "k \<in># pendingHandles s" using settle(1) by simp
    with h(2) have "k \<noteq> h" by auto
    moreover have "h \<notin># pendingHandles s'"
      using h(2) settle(1) by auto
    ultimately show ?thesis using h settle(2,3) by (auto simp: abandoned_def)
  next
    case same
    with h show ?thesis by (simp add: abandoned_def)
  qed
qed

lemma run_abandoned:
  "run es s = Some s' \<Longrightarrow> handles_ok s \<Longrightarrow> abandoned h s \<Longrightarrow> abandoned h s'"
proof (induction es arbitrary: s)
  case Nil
  then show ?case by simp
next
  case (Cons e es)
  from run_Cons_Some[OF Cons.prems(1)] obtain s1
    where s1: "step e s = Some s1" "run es s1 = Some s'" by blast
  from Cons.IH[OF s1(2) step_handles_ok[OF s1(1) Cons.prems(2)]
      step_abandoned[OF s1(1) Cons.prems(2,3)]]
  show ?case .
qed

lemma new_Operation_handles_ok: "handles_ok (new_Operation tasks m)"
  by (simp add: handles_ok_def pendingHandles_def new_Operation_def)

lemma running_handle_pending:
  assumes "i < length (wprocs s)" "wprocs s ! i = W_Running x"
  shows "callback x \<in># pendingHandles s"
proof -
  from sum_list_map_update[OF assms(1), of held W_Done] assms(2)
  have "sum_list (map held (wprocs s)) =
      sum_list (map held ((wprocs s)[i := W_Done])) + {#callback x#}"
    by simp
  then show ?thesis by (simp add: pendingHandles_def)
qed

lemma reject_abandons:
  assumes "handles_ok s" "i < length (wprocs s)" "wprocs s ! i = W_Running x"
  shows "abandoned (callback x) (setW i (W_Returned failed) s)"
proof -
  let ?s' = "setW i (W_Returned failed) s"
  have in_s: "callback x \<in># pendingHandles s"
    using running_handle_pending[OF assms(2,3)] .
  with assms(1) have live: "callback x < nextHandle s" "handles s (callback x) = None"
    and once: "count (pendingHandles s) (callback x) \<le> 1"
    by (auto simp: handles_ok_def)
  from pending_worker[of i s ?s' "W_Returned failed"] assms(2,3)
  have "pendingHandles s = pendingHandles ?s' + {#callback x#}" by simp
  then have "count (pendingHandles s) (callback x) = count (pendingHandles ?s') (callback x) + 1"
    by simp
  with once have "callback x \<notin># pendingHandles ?s'" by (simp add: not_in_iff)
  with live show ?thesis by (simp add: abandoned_def)
qed

section \<open>The claims\<close>

lemmas eval_defs = count_ceiling_def new_Operation_def distributeAction_def enqueueTasksIfNeeded_def
  getMaxConcurrentTasks_def startNewTask_def taskProviderFromList_def enqueue_resume_def
  startNewTask_resume_def spawnStart_def startPendingTasks_def setW_def worker_next_def
  getNextAction_resume_def waitForNotify_def ready_def task_then_def task_catch_def
  notifyAll_def spawnEnqueue_def performAction_def resolveHandle_def

text \<open>
  C1. The property: the completion promise is resolved only after the supply has signalled
  exhaustion, no task runs and the queue is empty. It does not hold: \<open>getNextAction\<close>
  tests the queue and the running tasks only, although its comment reads "no more tasks
  and no queued actions". Run: ceiling 1, supply of tasks 1 and 2, one worker. The
  worker starts task 1 and waits; task 1 resolves without submitting an action, and its
  \<open>then\<close> callback asks the provider for the next task (the answer, task 2, is awaited);
  the worker wakes first, sees no queued action and no running task, and resolves the
  completion promise. The provider has never answered with the exhaustion signal, it is
  not \<open>null\<close>, and task 2 has not been started. When the awaited answer arrives, task 2
  is started, after completion was signalled and with the only worker about to leave its
  loop.
\<close>

theorem finished_before_exhaustion:
  "(case run [RegisterWorker ''w'', WorkerResume 0, WorkerResume 0, WorkerResume 0,
              WorkerResume 0, TaskResolve 1, WorkerResume 0]
          (new_Operation [1, 2] (Some (Num 1))) of
      None \<Rightarrow> False
    | Some s \<Rightarrow> finished s \<and> taskProvider s = Some [] \<and>
               map answer (providerLog s) = [Some 1, Some 2] \<and>
               eprocs s = [Some (AwaitProvider (Some 2))] \<and> startedLog s = [1] \<and>
               wprocs s = [W_Returned no_more_actions] \<and>
               (case run [EnqueueResume 0, WorkerResume 0] s of
                  None \<Rightarrow> False
                | Some s' \<Rightarrow> finished s' \<and> runningTasks s' = [2] \<and> wprocs s' = [W_Done]))"
  by (simp add: eval_defs)

text \<open>
  C2. When the runner of a worker rejects while it executes a submitted action,
  \<open>distributeAction\<close> returns \<open>failed\<close> to the worker's loop, and the promise that
  \<open>performAction\<close> returned for this action is not resolved at that moment and is not
  resolved in any continuation of the run. (The \<open>reject\<close> function of that promise is
  never used by the code, so the promise is never rejected either: the model has no such
  transition.)
\<close>

theorem failed_action_never_settled:
  assumes "run es (new_Operation tasks m) = Some s"
    and "i < length (wprocs s)" and "wprocs s ! i = W_Running x"
    and "step (RunnerReject i) s = Some s1"
    and "run es' s1 = Some s2"
  shows "wprocs s1 ! i = W_Returned failed \<and>
         handles s1 (callback x) = None \<and> handles s2 (callback x) = None"
proof -
  from run_invariant[of handles_ok, OF step_handles_ok assms(1) new_Operation_handles_ok]
  have ok: "handles_ok s" .
  from assms(2,3,4) have s1: "s1 = setW i (W_Returned failed) s" by simp
  from reject_abandons[OF ok assms(2,3)] s1 have ab: "abandoned (callback x) s1" by simp
  from step_handles_ok[OF assms(4) ok] have "handles_ok s1" .
  from run_abandoned[OF assms(5) this ab] have "abandoned (callback x) s2" .
  with ab s1 assms(2) show ?thesis by (simp add: abandoned_def)
qed

theorem failed_action_never_settled_witness:
  "(case run [RegisterWorker ''w'', WorkerResume 0, TaskPerform 1 7, WorkerResume 0,
              WorkerResume 0] (new_Operation [1] (Some (Num 1))) of
      None \<Rightarrow> False
    | Some s \<Rightarrow>
        wprocs s ! 0 = W_Running (WrappedAction 7 0) \<and>
        (case step (RunnerReject 0) s of
           None \<Rightarrow> False
         | Some s1 \<Rightarrow>
             (case run [WorkerResume 0, WorkerResume 0, TaskResolve 1, WorkerResume 0,
                        WorkerResume 0] s1 of
                None \<Rightarrow> False
              | Some s2 \<Rightarrow>
                  wprocs s1 ! 0 = W_Returned failed \<and>
                  handles s1 (callback (WrappedAction 7 0)) = None \<and>
                  handles s2 (callback (WrappedAction 7 0)) = None \<and>
                  finished s2)))"
proof -
  define s where "s = the (run [RegisterWorker ''w'', WorkerResume 0, TaskPerform 1 7,
      WorkerResume 0, WorkerResume 0] (new_Operation [1] (Some (Num 1))))"
  have s: "run [RegisterWorker ''w'', WorkerResume 0, TaskPerform 1 7,
      WorkerResume 0, WorkerResume 0] (new_Operation [1] (Some (Num 1))) = Some s"
    unfolding s_def by (simp add: eval_defs)
  have d: "0 < length (wprocs s)" "wprocs s ! 0 = W_Running (WrappedAction 7 0)"
    unfolding s_def by (simp_all add: eval_defs)
  define s1 where "s1 = the (step (RunnerReject 0) s)"
  have s1: "step (RunnerReject 0) s = Some s1"
    unfolding s1_def s_def by (simp add: eval_defs)
  define s2 where "s2 = the (run [WorkerResume 0, WorkerResume 0, TaskResolve 1, WorkerResume 0,
      WorkerResume 0] s1)"
  have s2: "run [WorkerResume 0, WorkerResume 0, TaskResolve 1, WorkerResume 0,
      WorkerResume 0] s1 = Some s2"
    unfolding s2_def s1_def s_def by (simp add: eval_defs)
  have f: "finished s2"
    unfolding s2_def s1_def s_def by (simp add: eval_defs)
  show ?thesis
    unfolding s s1 s2 option.case
    using failed_action_never_settled[OF s d s1 s2] d f by blast
qed

text \<open>
  C3. The property as stated: a dequeued action is added to \<open>runningActions\<close> and removed
  from it exactly once. The second half does not hold: no code removes anything from
  \<open>runningActions\<close>. Run: ceiling 1, one task that submits
  one action, one worker whose runner succeeds with 14; the run goes on until the
  completion promise is resolved, and the action is still in the registry.
\<close>

theorem running_actions_kept_counterexample:
  "(case run [RegisterWorker ''w'', WorkerResume 0, TaskPerform 1 7, WorkerResume 0,
              WorkerResume 0, RunnerResolve 0 14, TaskResolve 1, WorkerResume 0,
              WorkerResume 0, WorkerResume 0, WorkerResume 0]
          (new_Operation [1] (Some (Num 1))) of
      None \<Rightarrow> False
    | Some s \<Rightarrow> runningActions s = [WrappedAction 7 0] \<and> handles s 0 = Some 14 \<and>
               finished s \<and> wprocs s = [W_Returned no_more_actions])"
  by (simp add: eval_defs)

text \<open>
  C3, as the code has it: every action a worker dequeues is appended to \<open>runningActions\<close> when it is
  dequeued, and nothing is ever removed: the registry is the list of all actions dequeued
  so far, in order, and it only grows.
\<close>

theorem running_actions_append_only:
  assumes "run es (new_Operation tasks m) = Some s" and "run es' s = Some s'"
  shows "runningActions s = delivered s \<and> (\<exists>ys. runningActions s' = runningActions s @ ys)"
proof -
  have "fifo s"
    using run_invariant[of fifo, OF step_fifo assms(1) new_Operation_fifo] .
  moreover have "\<exists>ys. runningActions s' = runningActions s @ ys"
    using assms(2) by (rule run_runningActions_grow)
  ultimately show ?thesis by (simp add: fifo_def)
qed

theorem running_actions_append_only_witness:
  "(case run [RegisterWorker ''w'', WorkerResume 0, TaskPerform 1 7, WorkerResume 0,
              WorkerResume 0] (new_Operation [1] (Some (Num 1))) of
      None \<Rightarrow> False
    | Some s \<Rightarrow>
        (case run [RunnerResolve 0 14, TaskPerform 1 8] s of
           None \<Rightarrow> False
         | Some s' \<Rightarrow> runningActions s = delivered s \<and>
                      (\<exists>ys. runningActions s' = runningActions s @ ys) \<and>
                      runningActions s = [WrappedAction 7 0]))"
proof -
  define s where "s = the (run [RegisterWorker ''w'', WorkerResume 0, TaskPerform 1 7, WorkerResume 0, WorkerResume 0]
      (new_Operation [1] (Some (Num 1))))"
  have s: "run [RegisterWorker ''w'', WorkerResume 0, TaskPerform 1 7, WorkerResume 0, WorkerResume 0]
      (new_Operation [1] (Some (Num 1))) = Some s"
    unfolding s_def by (simp add: eval_defs)
  have ra: "runningActions s = [WrappedAction 7 0]"
    unfolding s_def by (simp_all add: eval_defs)
  obtain s' where s': "run [RunnerResolve 0 14, TaskPerform 1 8] s = Some s'"
    using s[symmetric] by (simp add: eval_defs)
  show ?thesis
    unfolding s s' option.case using running_actions_append_only[OF s s'] ra by blast
qed

text \<open>
  C4. Actions are handed to workers in the order in which they were submitted: the actions
  delivered so far, in delivery order, followed by the queue, are the actions submitted so
  far, in submission order, whichever tasks submitted them.
\<close>

theorem actions_fifo:
  assumes "run es (new_Operation tasks m) = Some s"
  shows "submitted s = delivered s @ queuedActions s"
  using run_invariant[of fifo, OF step_fifo assms new_Operation_fifo]
  by (simp add: fifo_def)

theorem actions_fifo_witness:
  "(case run [RegisterWorker ''w'', WorkerResume 0, WorkerResume 0, WorkerResume 0,
              TaskPerform 2 20, TaskPerform 1 10, WorkerResume 0, WorkerResume 0]
          (new_Operation [1, 2] (Some (Num 2))) of
      None \<Rightarrow> False
    | Some s \<Rightarrow> submitted s = delivered s @ queuedActions s \<and>
               delivered s = [WrappedAction 20 0] \<and> queuedActions s = [WrappedAction 10 1])"
proof -
  define s where "s = the (run [RegisterWorker ''w'', WorkerResume 0, WorkerResume 0, WorkerResume 0, TaskPerform 2 20, TaskPerform 1 10, WorkerResume 0, WorkerResume 0]
      (new_Operation [1, 2] (Some (Num 2))))"
  have s: "run [RegisterWorker ''w'', WorkerResume 0, WorkerResume 0, WorkerResume 0, TaskPerform 2 20, TaskPerform 1 10, WorkerResume 0, WorkerResume 0]
      (new_Operation [1, 2] (Some (Num 2))) = Some s"
    unfolding s_def by (simp add: eval_defs)
  have d: "delivered s = [WrappedAction 20 0]" "queuedActions s = [WrappedAction 10 1]"
    unfolding s_def by (simp_all add: eval_defs)
  show ?thesis
    unfolding s option.case using actions_fifo[OF s] d by simp
qed

text \<open>
  C5. The property as stated: in every state of every run the number of running tasks is at
  most the ceiling, the configured one or the derived one. It does not hold for every
  configured number, since the constructor stores what it gets. Run: ceiling 1.5, two
  tasks, one worker: \<open>0 >= 1.5\<close> and \<open>1 >= 1.5\<close> are both false, so both tasks are started
  and two tasks run. With ceiling -1 the empty running set of a new operation is already
  above the ceiling.
\<close>

theorem running_tasks_above_ceiling_counterexample:
  "map_option (\<lambda>s. (runningTasks s, getMaxConcurrentTasks s,
                    num_le (length (runningTasks s)) (getMaxConcurrentTasks s)))
     (run [RegisterWorker ''w'', WorkerResume 0, WorkerResume 0, WorkerResume 0]
        (new_Operation [1, 2] (Some (Num (3 / 2)))))
   = Some ([1, 2], Num (3 / 2), False) \<and>
   \<not> num_le (length (runningTasks (new_Operation [1, 2] (Some (Num (- 1))))))
          (getMaxConcurrentTasks (new_Operation [1, 2] (Some (Num (- 1)))))"
  by (simp add: eval_defs)

text \<open>
  C5, as the code has it: when no ceiling is configured (it is then three times the number
  of workers registered at that moment) or the configured ceiling is a non-negative
  integer, the number of running tasks is at most the ceiling in every state of every run.
\<close>

theorem running_tasks_bounded:
  assumes "run es (new_Operation tasks m) = Some s" and "count_ceiling m"
  shows "num_le (length (runningTasks s)) (getMaxConcurrentTasks s)"
proof -
  from run_invariant[of bounded, OF step_bounded assms(1) new_Operation_bounded]
  have "bounded s" .
  moreover from run_workers[OF assms(1)] have "maxConcurrentTasks s = m"
    by (simp add: new_Operation_def)
  ultimately show ?thesis using assms(2) by (simp add: bounded_def)
qed

theorem running_tasks_bounded_witness:
  "(case run [RegisterWorker ''w'', WorkerResume 0, WorkerResume 0, RegisterWorker ''v'',
              WorkerResume 1]
          (new_Operation [1, 2, 3] (Some (Num 1))) of
      None \<Rightarrow> False
    | Some s \<Rightarrow> count_ceiling (Some (Num 1)) \<and>
               num_le (length (runningTasks s)) (getMaxConcurrentTasks s) \<and>
               runningTasks s = [1] \<and> getMaxConcurrentTasks s = Num 1)"
proof -
  define s where "s = the (run [RegisterWorker ''w'', WorkerResume 0, WorkerResume 0,
      RegisterWorker ''v'', WorkerResume 1] (new_Operation [1, 2, 3] (Some (Num 1))))"
  have s: "run [RegisterWorker ''w'', WorkerResume 0, WorkerResume 0,
      RegisterWorker ''v'', WorkerResume 1] (new_Operation [1, 2, 3] (Some (Num 1))) = Some s"
    unfolding s_def by (simp add: eval_defs)
  have d: "runningTasks s = [1]" "getMaxConcurrentTasks s = Num 1"
    unfolding s_def by (simp_all add: eval_defs)
  have c: "count_ceiling (Some (Num 1))"
    by (simp add: count_ceiling_def)
  show ?thesis
    unfolding s option.case using running_tasks_bounded[OF s c] c d by simp
qed

text \<open>
  C6. The property: every call of \<open>wait()\<close> returns a handle that completes at the next
  \<open>notifyAll()\<close>. It does not hold for the call that installs the promise: when no
  promise is pending, \<open>waitForNotify\<close> installs one and returns nothing (line 40 has no
  \<open>return\<close>, line 39 has one), so the caller's \<open>await\<close> goes on without any \<open>notifyAll\<close>.
  Run: ceiling 1, one task, one worker; after four events the worker waits at line 98 on
  \<open>undefined\<close>, a promise is installed, none has been resolved, and the worker can resume.
\<close>

theorem wait_returns_no_handle:
  "fst (waitForNotify (new_Operation tasks m)) = None \<and>
   (case run [RegisterWorker ''w'', WorkerResume 0, WorkerResume 0, WorkerResume 0]
          (new_Operation [1] (Some (Num 1))) of
      None \<Rightarrow> False
    | Some s \<Rightarrow> wprocs s = [W_Await None] \<and> notifyPromise s = Some 0 \<and> notified s = {} \<and>
               step (WorkerResume 0) s \<noteq> None)"
  by (simp add: eval_defs)

text \<open>
  C7. With no configured ceiling, the ceiling in any state of a run is three times the
  number of workers registered so far: it is computed from the current list of workers
  each time.
\<close>

theorem derived_ceiling:
  assumes "run es (new_Operation tasks None) = Some s"
  shows "workers s = registered es \<and>
         getMaxConcurrentTasks s = Num (real (3 * length (registered es)))"
  using run_workers[OF assms]
  by (simp add: getMaxConcurrentTasks_def new_Operation_def)

theorem derived_ceiling_witness:
  "(case run [RegisterWorker ''a'', RegisterWorker ''b''] (new_Operation [1] None) of
      None \<Rightarrow> False
    | Some s \<Rightarrow> workers s = [''a'', ''b''] \<and> getMaxConcurrentTasks s = Num 6)"
proof -
  define s where "s = the (run [RegisterWorker ''a'', RegisterWorker ''b'']
      (new_Operation [1] None))"
  have s: "run [RegisterWorker ''a'', RegisterWorker ''b'']
      (new_Operation [1] None) = Some s"
    unfolding s_def by (simp add: eval_defs)
  show ?thesis
    unfolding s option.case using derived_ceiling[OF s] by simp
qed

text \<open>
  C8. The property as stated: every call of the provider is made with no queued action and
  with fewer running tasks than the ceiling. The second half does not hold for every
  configured number: with ceiling \<open>NaN\<close> the test \<open>running >= ceiling\<close> of line 114 is never
  true, and \<open>running < ceiling\<close> is never true either. Run: ceiling \<open>NaN\<close>, two tasks, one
  worker; the provider is called with no task running and again with one task running.
  (The log records, for each call, the length of the queue, the number of running tasks
  and the ceiling at the moment of the call, line 125.)
\<close>

theorem provider_called_at_NaN_counterexample:
  "map_option (\<lambda>s. map (\<lambda>v. (running_then v, ceiling_then v,
                              num_lt (running_then v) (ceiling_then v))) (providerLog s))
     (run [RegisterWorker ''w'', WorkerResume 0, WorkerResume 0]
        (new_Operation [1, 2] (Some NaN)))
   = Some [(0, NaN, False), (1, NaN, False)]"
  by (simp add: eval_defs)

text \<open>
  C8, as the code has it: every call of the provider made in a run was made with no queued
  action and with the test \<open>running >= ceiling\<close> false; unless the configured ceiling is
  \<open>NaN\<close>, the number of running tasks was then strictly below the ceiling.
\<close>

theorem provider_called_when_needed:
  assumes "run es (new_Operation tasks m) = Some s"
  shows "\<forall>v \<in> set (providerLog s).
           queued_then v = 0 \<and> \<not> num_ge (running_then v) (ceiling_then v) \<and>
           (m \<noteq> Some NaN \<longrightarrow> num_lt (running_then v) (ceiling_then v))"
proof -
  have "log_ok m (new_Operation tasks m)"
    by (simp add: log_ok_def new_Operation_def)
  from run_invariant[of "log_ok m", OF step_log assms this]
  have "log_ok m s" .
  then have "list_all (invoked_when_needed m) (providerLog s)"
    by (simp add: log_ok_def)
  then show ?thesis
    by (auto simp: list_all_iff invoked_when_needed_def intro: below_ceiling)
qed

theorem provider_called_when_needed_witness:
  "(case run [RegisterWorker ''w'', WorkerResume 0, WorkerResume 0, TaskResolve 1,
              WorkerResume 0]
          (new_Operation [1, 2] None) of
      None \<Rightarrow> False
    | Some s \<Rightarrow>
        (\<forall>v \<in> set (providerLog s).
           queued_then v = 0 \<and> \<not> num_ge (running_then v) (ceiling_then v) \<and>
           (None \<noteq> Some NaN \<longrightarrow> num_lt (running_then v) (ceiling_then v))) \<and>
        providerLog s = [Invocation (Some 1) 0 0 (Num 3), Invocation (Some 2) 0 1 (Num 3),
                         Invocation None 0 0 (Num 3)])"
proof -
  define s where "s = the (run [RegisterWorker ''w'', WorkerResume 0, WorkerResume 0,
      TaskResolve 1, WorkerResume 0] (new_Operation [1, 2] None))"
  have s: "run [RegisterWorker ''w'', WorkerResume 0, WorkerResume 0,
      TaskResolve 1, WorkerResume 0] (new_Operation [1, 2] None) = Some s"
    unfolding s_def by (simp add: eval_defs)
  have d: "providerLog s = [Invocation (Some 1) 0 0 (Num 3), Invocation (Some 2) 0 1 (Num 3),
                            Invocation None 0 0 (Num 3)]"
    unfolding s_def by (simp_all add: eval_defs)
  show ?thesis
    unfolding s option.case using provider_called_when_needed[OF s] d by simp
qed

text \<open>
  C9. The property as stated: once the provider has returned the exhaustion signal, it is
  never called again. It does not hold for calls made while an earlier call is still
  awaited: each worker's pull calls the provider by itself, and the provider is
  only dropped when an awaited call resumes. Run: an empty supply and two workers
  registered one after the other, as \<open>registerWorker\<close> is called twice in a row. The first
  call of the provider returns the exhaustion signal; the second call is made after it.
\<close>

theorem provider_called_after_exhaustion_counterexample:
  "map_option (\<lambda>s. (map answer (providerLog s), taskProvider s))
     (run [RegisterWorker ''w1'', RegisterWorker ''w2''] (new_Operation [] None))
   = Some ([None, None], Some [])"
  by (simp add: eval_defs)

text \<open>
  C9, as the code has it: once the scheduler has received the exhaustion signal (an awaited call of
  the provider resumes at line 125 with an absent value), \<open>taskProvider\<close> is \<open>null\<close> and
  stays so, and the provider is not called again in the rest of the run.
\<close>

theorem no_call_after_exhaustion_received:
  assumes "step e s = Some s1" and "delivers_exhaustion e s" and "run es s1 = Some s2"
  shows "taskProvider s1 = None \<and> taskProvider s2 = None \<and> providerLog s2 = providerLog s"
  using step_delivers_exhaustion[OF assms(1,2)] run_exhausted[OF assms(3)]
  by simp

theorem no_call_after_exhaustion_received_witness:
  "(case run [RegisterWorker ''w1'', RegisterWorker ''w2''] (new_Operation [] None) of
      None \<Rightarrow> False
    | Some s \<Rightarrow>
        delivers_exhaustion (WorkerResume 0) s \<and>
        (case step (WorkerResume 0) s of
           None \<Rightarrow> False
         | Some s1 \<Rightarrow>
             (case run [WorkerResume 1, WorkerResume 1, WorkerResume 0, RegisterWorker ''w3''] s1 of
                None \<Rightarrow> False
              | Some s2 \<Rightarrow> taskProvider s1 = None \<and> taskProvider s2 = None \<and>
                           providerLog s2 = providerLog s \<and> length (providerLog s2) = 2)))"
proof -
  define s where "s = the (run [RegisterWorker ''w1'', RegisterWorker ''w2'']
      (new_Operation [] None))"
  have s: "run [RegisterWorker ''w1'', RegisterWorker ''w2'']
      (new_Operation [] None) = Some s"
    unfolding s_def by (simp add: eval_defs)
  have d: "delivers_exhaustion (WorkerResume 0) s" "length (providerLog s) = 2"
    unfolding s_def by (simp_all add: eval_defs)
  obtain s1 where s1: "step (WorkerResume 0) s = Some s1"
    using s[symmetric] by (simp add: eval_defs)
  obtain s2 where s2: "run [WorkerResume 1, WorkerResume 1, WorkerResume 0,
      RegisterWorker ''w3''] s1 = Some s2"
    using s1[symmetric] s[symmetric] by (simp add: eval_defs)
  show ?thesis
    unfolding s s1 s2 option.case
    using no_call_after_exhaustion_received[OF s1 d(1) s2] d by simp
qed

text \<open>
  C10. The failed list is exactly the list of the tasks whose body rejected, in the order
  of the rejections: each rejection adds its task once, and nothing else adds anything. The
  started tasks are the running ones, the ones whose body resolved and the ones whose body
  rejected. When the supply hands out each task once, no task is twice in the failed list,
  no task whose body resolved is in it, and no settled task is still in the running set.
\<close>

theorem failed_tasks_exact:
  assumes "run es (new_Operation tasks m) = Some s"
  shows "failedTasks s = rejectedLog s \<and>
         mset (runningTasks s) + mset (resolvedLog s) + mset (rejectedLog s) = mset (startedLog s) \<and>
         (distinct tasks \<longrightarrow>
            distinct (failedTasks s) \<and>
            set (failedTasks s) \<inter> set (resolvedLog s) = {} \<and>
            set (runningTasks s) \<inter> (set (resolvedLog s) \<union> set (failedTasks s)) = {})"
proof -
  from run_invariant[of "tasks_inv (mset tasks)", OF step_tasks_inv assms new_Operation_tasks_inv]
  have inv: "tasks_inv (mset tasks) s" .
  then have acc: "failedTasks s = rejectedLog s"
    "mset (runningTasks s) + mset (resolvedLog s) + mset (rejectedLog s) = mset (startedLog s)"
    by (simp_all add: tasks_inv_def accounted_def)
  have "distinct (runningTasks s @ resolvedLog s @ rejectedLog s)" if "distinct tasks"
    using tasks_inv_distinct[OF inv that] .
  with acc show ?thesis by auto
qed

theorem failed_tasks_exact_witness:
  "(case run [RegisterWorker ''w'', WorkerResume 0, WorkerResume 0, WorkerResume 0,
              TaskReject 1, TaskResolve 2]
          (new_Operation [1, 2] (Some (Num 2))) of
      None \<Rightarrow> False
    | Some s \<Rightarrow>
        failedTasks s = rejectedLog s \<and>
        mset (runningTasks s) + mset (resolvedLog s) + mset (rejectedLog s) = mset (startedLog s) \<and>
        (distinct [1, 2 :: nat] \<longrightarrow>
           distinct (failedTasks s) \<and>
           set (failedTasks s) \<inter> set (resolvedLog s) = {} \<and>
           set (runningTasks s) \<inter> (set (resolvedLog s) \<union> set (failedTasks s)) = {}) \<and>
        failedTasks s = [1] \<and> resolvedLog s = [2] \<and> runningTasks s = [])"
proof -
  define s where "s = the (run [RegisterWorker ''w'', WorkerResume 0, WorkerResume 0,
      WorkerResume 0, TaskReject 1, TaskResolve 2] (new_Operation [1, 2] (Some (Num 2))))"
  have s: "run [RegisterWorker ''w'', WorkerResume 0, WorkerResume 0,
      WorkerResume 0, TaskReject 1, TaskResolve 2] (new_Operation [1, 2] (Some (Num 2))) = Some s"
    unfolding s_def by (simp add: eval_defs)
  have d: "failedTasks s = [1]" "resolvedLog s = [2]" "runningTasks s = []"
    unfolding s_def by (simp_all add: eval_defs)
  show ?thesis
    unfolding s option.case using failed_tasks_exact[OF s] d by blast
qed

end
